theory Spec2Isabelle
  imports Main "HOL-Library.Multiset"
begin

section \<open>Values shared by the pipeline\<close>

text \<open>
  The program is \<^verbatim>\<open>clone-site.mjs\<close>: it fetches one page, consolidates its CSS,
  downloads the referenced assets and rewrites every reference to a local path.
  JavaScript strings are modelled as \<^typ>\<open>string\<close>, numbers that hold an HTTP status as
  \<^typ>\<open>int\<close>, a thrown exception as the left summand of a sum type.
\<close>

datatype error =
    InvalidUrl string
  | RequestFailed string
  | NonOkStatus int string
  | NonOkHttp int string
  | EmptyHtml string
  | ReferenceError string

text \<open>
  What \<^verbatim>\<open>client.get\<close> resolves to. The client is created with
  \<^verbatim>\<open>validateStatus: () => true\<close>, so every HTTP status comes back as a response; the
  request itself can still reject (no connection, timeout, more than five redirects).
  \<^verbatim>\<open>responseUrl\<close> is \<^verbatim>\<open>res.request?.res?.responseUrl\<close> and \<^verbatim>\<open>contentTypeHeader\<close> is
  \<^verbatim>\<open>res.headers['content-type']\<close>; both may be undefined.
\<close>

record response =
  status :: int
  body :: string
  responseUrl :: "string option"
  contentTypeHeader :: "string option"

type_synonym client = "string \<Rightarrow> error + response"

text \<open>
  The object the three fetch functions return: \<^verbatim>\<open>{ html | text | buf, finalUrl, contentType }\<close>.
\<close>

record fetched =
  payload :: string
  finalUrl :: string
  contentType :: string

text \<open>\<^verbatim>\<open>a || b\<close> on a possibly undefined string: the empty string is falsy.\<close>

fun or_else :: "string option \<Rightarrow> string \<Rightarrow> string" where
  "or_else None d = d"
| "or_else (Some s) d = (if s = [] then d else s)"

section \<open>Page fetcher\<close>

text \<open>
  \<^verbatim>\<open>
  async function fetchHTML(url, client) {
    const res = await client.get(url, ...);
    if (res.status < 200 || res.status >= 300) throw new Error(`Non-OK HTTP status ...`);
    const finalUrl = res.request?.res?.responseUrl || url;
    const html = String(res.data || '');
    if (!html) throw new Error(`Empty HTML from ${finalUrl}`);
    return { html, finalUrl, contentType: res.headers['content-type'] || '' };
  }
  \<close>
\<close>

definition fetchHTML :: "client \<Rightarrow> string \<Rightarrow> error + fetched" where
  "fetchHTML get url =
     (case get url of
        Inl e \<Rightarrow> Inl e
      | Inr res \<Rightarrow>
          if status res < 200 \<or> status res \<ge> 300 then Inl (NonOkStatus (status res) url)
          else
            let final = or_else (responseUrl res) url;
                html = body res
            in if html = [] then Inl (EmptyHtml final)
               else Inr \<lparr>payload = html, finalUrl = final,
                          contentType = or_else (contentTypeHeader res) []\<rparr>)"

text \<open>The failure condition in the specification's words: the status is outside [200,299)
  or the body is empty.\<close>

definition spec_fetchHtml_fails :: "response \<Rightarrow> bool" where
  "spec_fetchHtml_fails res \<longleftrightarrow> \<not> (200 \<le> status res \<and> status res < 299) \<or> body res = []"

definition res299 :: response where
  "res299 = \<lparr>status = 299, body = ''<p>hi</p>'', responseUrl = Some ''https://x.test/p'',
             contentTypeHeader = Some ''text/html''\<rparr>"

section \<open>Concurrent downloader\<close>

text \<open>
  \<^verbatim>\<open>
  async function fetchBinary(url, client) {
    const res = await client.get(url, { responseType: 'arraybuffer', ... });
    if (res.status < 200 || res.status >= 300) throw new Error(`Non-OK HTTP ${res.status} for ${url}`);
    return { buf: Buffer.from(res.data), finalUrl: res.request?.res?.responseUrl || url,
             contentType: res.headers['content-type'] || '' };
  }
  \<close>
\<close>

definition fetchBinary :: "client \<Rightarrow> string \<Rightarrow> error + fetched" where
  "fetchBinary get url =
     (case get url of
        Inl e \<Rightarrow> Inl e
      | Inr res \<Rightarrow>
          if status res < 200 \<or> status res \<ge> 300 then Inl (NonOkHttp (status res) url)
          else Inr \<lparr>payload = body res, finalUrl = or_else (responseUrl res) url,
                     contentType = or_else (contentTypeHeader res) []\<rparr>)"

text \<open>
  One slot of the result array: \<^verbatim>\<open>{ ok:true, url, finalUrl, contentType, buf }\<close> or
  \<^verbatim>\<open>{ ok:false, url, error }\<close>. The error is kept as a value; its text is \<^verbatim>\<open>e.message\<close>.
\<close>

datatype outcome =
    Ok string string string string
  | Fail string error

text \<open>The body of the worker's \<^verbatim>\<open>try\<close>/\<^verbatim>\<open>catch\<close> for one URL.\<close>

definition download_one :: "client \<Rightarrow> string \<Rightarrow> outcome" where
  "download_one get url =
     (case fetchBinary get url of
        Inr f \<Rightarrow> Ok url (finalUrl f) (contentType f) (payload f)
      | Inl e \<Rightarrow> Fail url e)"

text \<open>
  \<^verbatim>\<open>
  async function downloadWithConcurrency(urls, client, limit, verbose=false) {
    const out = new Array(urls.length);
    let i = 0;
    async function worker() {
      while (i < urls.length) {
        const idx = i++;
        const url = urls[idx];
        try { const { buf, finalUrl, contentType } = await fetchBinary(url, client);
              out[idx] = { ok:true, url, finalUrl, contentType, buf }; }
        catch (e) { out[idx] = { ok:false, url, error: e.message }; }
      }
    }
    await Promise.all(Array.from({ length: Math.min(limit, urls.length || 1) }, worker));
    return out;
  }
  \<close>
  The state shared by the workers is the counter \<^verbatim>\<open>i\<close> and the array \<^verbatim>\<open>out\<close>, whose
  unwritten slots are holes (\<open>None\<close>). A worker runs without interruption from the
  moment its \<^verbatim>\<open>await\<close> resumes until it awaits the next fetch, so the pool is a
  transition system whose state also lists, for every worker that is waiting, the index
  it has claimed. Which waiting worker resumes next is decided by the network; the
  model takes that decision from a schedule, a list of numbers read modulo the number of
  waiting workers (an exhausted schedule resumes the first waiting worker).
\<close>

record pool =
  next_i :: nat
  out :: "outcome option list"
  waiting :: "nat list"

text \<open>A worker reaches the loop test: it claims the next index or ends.\<close>

definition worker_loop :: "nat \<Rightarrow> nat \<Rightarrow> pool \<Rightarrow> pool" where
  "worker_loop n k st =
     (if next_i st < n
      then st\<lparr>next_i := Suc (next_i st), waiting := (waiting st)[k := next_i st]\<rparr>
      else st\<lparr>waiting := take k (waiting st) @ drop (Suc k) (waiting st)\<rparr>)"

text \<open>The fetch of waiting worker \<open>k\<close> settles: the slot is written, the loop goes on.\<close>

definition resume :: "client \<Rightarrow> string list \<Rightarrow> nat \<Rightarrow> pool \<Rightarrow> pool" where
  "resume get urls k st =
     (let idx = waiting st ! k
      in worker_loop (length urls) k
           (st\<lparr>out := (out st)[idx := Some (download_one get (urls ! idx))]\<rparr>))"

definition pick :: "nat list \<Rightarrow> nat \<Rightarrow> nat" where
  "pick sched m = (case sched of [] \<Rightarrow> 0 | c # _ \<Rightarrow> c mod m)"

lemma pick_less: "0 < m \<Longrightarrow> pick sched m < m"
  by (simp add: pick_def split: list.splits)

lemma length_drop_one: "k < length xs \<Longrightarrow> length (take k xs @ drop (Suc k) xs) = length xs - 1"
  by simp

lemma resume_measure:
  assumes "k < length (waiting st)"
  shows "(length urls - next_i (resume get urls k st)) + length (waiting (resume get urls k st))
           < (length urls - next_i st) + length (waiting st)"
  using assms by (auto simp: resume_def worker_loop_def Let_def)

function pool_run :: "client \<Rightarrow> string list \<Rightarrow> nat list \<Rightarrow> pool \<Rightarrow> outcome option list" where
  "pool_run get urls sched st =
     (if waiting st = [] then out st
      else pool_run get urls (tl sched)
             (resume get urls (pick sched (length (waiting st))) st))"
  by pat_completeness auto
termination
proof (relation "measure (\<lambda>(get, urls, sched, st).
        (length urls - next_i st) + length (waiting st))")
  show "wf (measure (\<lambda>(get, urls, sched, st).
        (length urls - next_i st) + length (waiting st)))"
    by simp
next
  fix get :: client and urls :: "string list" and sched :: "nat list" and st :: pool
  assume "waiting st \<noteq> []"
  then have "pick sched (length (waiting st)) < length (waiting st)"
    by (simp add: pick_less)
  then show "((get, urls, tl sched, resume get urls (pick sched (length (waiting st))) st),
              (get, urls, sched, st))
        \<in> measure (\<lambda>(get, urls, sched, st). (length urls - next_i st) + length (waiting st))"
    using resume_measure [of "pick sched (length (waiting st))" st urls get] by simp
qed

declare pool_run.simps [simp del]

text \<open>
  \<^verbatim>\<open>Array.from({ length: Math.min(limit, urls.length || 1) }, worker)\<close> starts the workers
  one after the other; each claims an index while one is left. A length that is not
  positive starts no worker.
\<close>

definition start_workers :: "string list \<Rightarrow> int \<Rightarrow> pool" where
  "start_workers urls limit =
     (let n = length urls;
          w = nat (min limit (int (if n = 0 then 1 else n)))
      in \<lparr>next_i = min w n, out = replicate n None, waiting = [0 ..< min w n]\<rparr>)"

definition downloadWithConcurrency ::
  "string list \<Rightarrow> client \<Rightarrow> int \<Rightarrow> nat list \<Rightarrow> outcome option list" where
  "downloadWithConcurrency urls get limit sched = pool_run get urls sched (start_workers urls limit)"

text \<open>
  The invariant of the pool: every index below the counter is either claimed by exactly
  one waiting worker or already written with the outcome of its own URL; every other
  slot is still a hole.
\<close>

definition pool_inv :: "client \<Rightarrow> string list \<Rightarrow> pool \<Rightarrow> bool" where
  "pool_inv get urls st \<longleftrightarrow>
     length (out st) = length urls \<and> next_i st \<le> length urls \<and>
     distinct (waiting st) \<and> (\<forall>j \<in> set (waiting st). j < next_i st) \<and>
     (\<forall>j < length urls. out st ! j =
        (if j < next_i st \<and> j \<notin> set (waiting st) then Some (download_one get (urls ! j)) else None))"

definition pool_live :: "string list \<Rightarrow> pool \<Rightarrow> bool" where
  "pool_live urls st \<longleftrightarrow> (next_i st < length urls \<longrightarrow> waiting st \<noteq> [])"

text \<open>A small network used by the worked examples below.\<close>

definition png_response :: "string \<Rightarrow> response" where
  "png_response u = \<lparr>status = 200, body = ''PNG'', responseUrl = Some u,
                      contentTypeHeader = Some ''image/png''\<rparr>"

definition not_found :: response where
  "not_found = \<lparr>status = 404, body = ''Not Found'', responseUrl = None,
                 contentTypeHeader = Some ''text/plain''\<rparr>"

definition example_net :: client where
  "example_net u =
     (if u = ''https://x.test/a.png'' then Inr (png_response u)
      else if u = ''https://x.test/b.png'' then Inr (png_response u)
      else if u = ''https://x.test/missing.png'' then Inr not_found
      else Inl (RequestFailed ''getaddrinfo ENOTFOUND''))"

section \<open>Libraries the program calls\<close>

text \<open>
  The program leaves URL parsing to the platform's \<^verbatim>\<open>URL\<close> class, paths to
  \<^verbatim>\<open>node:path\<close>, hashing to \<^verbatim>\<open>node:crypto\<close> and the MIME tables to \<^verbatim>\<open>mime-types\<close>.
  None of them is code of this repository; the model takes them as parameters:
  \<^item> \<open>url_resolve rel base\<close> is \<^verbatim>\<open>new URL(rel, base).toString()\<close>, \<open>None\<close> when the
    constructor throws;
  \<^item> \<open>url_pathname u\<close> is \<^verbatim>\<open>new URL(u).pathname\<close>, \<open>None\<close> when the constructor throws;
  \<^item> \<open>path_extname\<close> and \<open>path_basename\<close> are \<^verbatim>\<open>path.extname\<close> and \<^verbatim>\<open>path.basename\<close>;
  \<^item> \<open>sha1_hex s\<close> is \<^verbatim>\<open>crypto.createHash('sha1').update(s).digest('hex')\<close>;
  \<^item> \<open>mime_lookup\<close> and \<open>mime_extension\<close> are \<^verbatim>\<open>mime.lookup\<close> and \<^verbatim>\<open>mime.extension\<close>,
    \<open>None\<close> where they return \<^verbatim>\<open>false\<close>.
\<close>

record lib =
  url_resolve :: "string \<Rightarrow> string \<Rightarrow> string option"
  url_pathname :: "string \<Rightarrow> string option"
  path_extname :: "string \<Rightarrow> string"
  path_basename :: "string \<Rightarrow> string"
  sha1_hex :: "string \<Rightarrow> string"
  mime_lookup :: "string \<Rightarrow> string option"
  mime_extension :: "string \<Rightarrow> string option"

section \<open>String helpers\<close>

definition starts_with :: "string \<Rightarrow> string \<Rightarrow> bool" where
  "starts_with p s \<longleftrightarrow> take (length p) s = p"

text \<open>\<^verbatim>\<open>/lit/.test(s)\<close> for a literal pattern: \<open>lit\<close> occurs somewhere in \<open>s\<close>.\<close>

fun contains :: "string \<Rightarrow> string \<Rightarrow> bool" where
  "contains sub [] = (sub = [])"
| "contains sub (c # cs) = (starts_with sub (c # cs) \<or> contains sub cs)"

definition upper_letters :: string where
  "upper_letters = ''ABCDEFGHIJKLMNOPQRSTUVWXYZ''"

definition lower_letters :: string where
  "lower_letters = ''abcdefghijklmnopqrstuvwxyz''"

definition digits :: string where
  "digits = ''0123456789''"

definition lower_char :: "char \<Rightarrow> char" where
  "lower_char c = (case map_of (zip upper_letters lower_letters) c of Some d \<Rightarrow> d | None \<Rightarrow> c)"

definition toLowerCase :: "string \<Rightarrow> string" where
  "toLowerCase s = map lower_char s"

section \<open>Path classifier\<close>

text \<open>
  \<^verbatim>\<open>
  const sha1Short = s => crypto.createHash('sha1').update(s).digest('hex').slice(0,8);
  const sanitize  = s => (s || 'file').replace(/[^a-zA-Z0-9._-]/g,'_').slice(0,80) || 'file';
  \<close>
\<close>

definition sha1Short :: "lib \<Rightarrow> string \<Rightarrow> string" where
  "sha1Short L s = take 8 (sha1_hex L s)"

definition safe_char :: "char \<Rightarrow> bool" where
  "safe_char c \<longleftrightarrow>
     c \<in> set lower_letters \<or> c \<in> set upper_letters \<or> c \<in> set digits \<or>
     c = CHR ''.'' \<or> c = CHR ''_'' \<or> c = CHR ''-''"

definition sanitize :: "string \<Rightarrow> string" where
  "sanitize s =
     (let s1 = (if s = [] then ''file'' else s);
          s2 = take 80 (map (\<lambda>c. if safe_char c then c else CHR ''_'') s1)
      in if s2 = [] then ''file'' else s2)"

text \<open>
  \<^verbatim>\<open>
  function classifyByExtOrMime(urlStr, contentType) {
    const u = new URL(urlStr);
    const ext = path.extname(u.pathname).toLowerCase();
    const type = (contentType || mimeLookup(ext || '') || '').toString();
    const isJS   = ext === '.js' || /javascript|ecmascript/.test(type);
    const isFont = ['.woff','.woff2','.ttf','.otf','.eot'].includes(ext) || /font|opentype|woff/.test(type);
    const isImg  = ['.png','.jpg','.jpeg','.gif','.webp','.svg','.ico','.bmp','.avif'].includes(ext) || /image\//.test(type);
    if (isJS) return 'js';
    if (isFont) return 'fonts';
    if (isImg) return 'img';
    return 'other';
  }
  \<close>
\<close>

definition classifyByExtOrMime :: "lib \<Rightarrow> string \<Rightarrow> string \<Rightarrow> error + string" where
  "classifyByExtOrMime L urlStr ctype =
     (case url_pathname L urlStr of
        None \<Rightarrow> Inl (InvalidUrl urlStr)
      | Some pathname \<Rightarrow>
          let ext = toLowerCase (path_extname L pathname);
              type = (if ctype \<noteq> [] then ctype else or_else (mime_lookup L ext) []);
              isJS = (ext = ''.js'' \<or> contains ''javascript'' type \<or> contains ''ecmascript'' type);
              isFont = (ext \<in> set [''.woff'', ''.woff2'', ''.ttf'', ''.otf'', ''.eot''] \<or>
                        contains ''font'' type \<or> contains ''opentype'' type \<or> contains ''woff'' type);
              isImg = (ext \<in> set [''.png'', ''.jpg'', ''.jpeg'', ''.gif'', ''.webp'', ''.svg'',
                                    ''.ico'', ''.bmp'', ''.avif''] \<or> contains ''image/'' type)
          in Inr (if isJS then ''js'' else if isFont then ''fonts''
                  else if isImg then ''img'' else ''other''))"

text \<open>
  \<^verbatim>\<open>
  function ensureExt(urlStr, contentType) {
    const u = new URL(urlStr);
    const ext = path.extname(u.pathname);
    if (ext) return ext;
    const m = extFromMime(contentType || '');
    if (m) return `.${m}`;
    if (/image\//.test(contentType || '')) return '.img';
    if (/javascript/.test(contentType || '')) return '.js';
    if (/font|woff|opentype/.test(contentType || '')) return '.woff';
    return '.bin';
  }
  \<close>
\<close>

definition ensureExt :: "lib \<Rightarrow> string \<Rightarrow> string \<Rightarrow> error + string" where
  "ensureExt L urlStr ctype =
     (case url_pathname L urlStr of
        None \<Rightarrow> Inl (InvalidUrl urlStr)
      | Some pathname \<Rightarrow>
          let ext = path_extname L pathname;
              m = or_else (mime_extension L ctype) []
          in Inr (if ext \<noteq> [] then ext
                  else if m \<noteq> [] then CHR ''.'' # m
                  else if contains ''image/'' ctype then ''.img''
                  else if contains ''javascript'' ctype then ''.js''
                  else if contains ''font'' ctype \<or> contains ''woff'' ctype \<or> contains ''opentype'' ctype
                    then ''.woff''
                  else ''.bin''))"

text \<open>
  \<^verbatim>\<open>s.replace(/\.[^.]+$/, '')\<close>: the text from the last dot on is removed when at least one
  character follows that dot.
\<close>

definition strip_last_ext :: "string \<Rightarrow> string" where
  "strip_last_ext s =
     (if CHR ''.'' \<in> set s \<and> last s \<noteq> CHR ''.''
      then rev (tl (dropWhile (\<lambda>c. c \<noteq> CHR ''.'') (rev s)))
      else s)"

text \<open>
  \<^verbatim>\<open>
  function localPathForAsset(remoteUrl, contentType) {
    const u = new URL(remoteUrl);
    const folder = classifyByExtOrMime(remoteUrl, contentType);
    const base = sanitize(path.basename(u.pathname).replace(/\.[^.]+$/, '')) || 'file';
    const ext  = ensureExt(remoteUrl, contentType);
    const name = `${base}-${sha1Short(remoteUrl)}${ext}`;
    return path.posix.join('assets', folder, name);
  }
  \<close>
  \<^verbatim>\<open>path.posix.join\<close> puts a slash between its arguments and normalises the result; the
  three segments here hold no slash and none is \<^verbatim>\<open>.\<close> or \<^verbatim>\<open>..\<close> (the name always contains the
  hyphen and the hash), so the normalisation changes nothing.
\<close>

definition localPathForAsset :: "lib \<Rightarrow> string \<Rightarrow> string \<Rightarrow> error + string" where
  "localPathForAsset L remoteUrl ctype =
     (case url_pathname L remoteUrl of
        None \<Rightarrow> Inl (InvalidUrl remoteUrl)
      | Some pathname \<Rightarrow>
          (case classifyByExtOrMime L remoteUrl ctype of
             Inl e \<Rightarrow> Inl e
           | Inr folder \<Rightarrow>
               let b0 = sanitize (strip_last_ext (path_basename L pathname));
                   base = (if b0 = [] then ''file'' else b0)
               in (case ensureExt L remoteUrl ctype of
                     Inl e \<Rightarrow> Inl e
                   | Inr ext \<Rightarrow>
                       Inr (''assets/'' @ folder @ ''/'' @ base @ ''-'' @ sha1Short L remoteUrl @ ext))))"

section \<open>Combining the asset lists and saving the downloads\<close>

text \<open>
  A JavaScript \<^verbatim>\<open>Set\<close> built from an array keeps the first occurrence of every element,
  in order.
\<close>

fun uniq_from :: "'a list \<Rightarrow> 'a list \<Rightarrow> 'a list" where
  "uniq_from seen [] = []"
| "uniq_from seen (x # xs) = (if x \<in> set seen then uniq_from seen xs else x # uniq_from (x # seen) xs)"

definition uniq :: "'a list \<Rightarrow> 'a list" where
  "uniq xs = uniq_from [] xs"

text \<open>\<^verbatim>\<open>/^https?:\/\//.test(u)\<close>\<close>

definition is_http :: "string \<Rightarrow> bool" where
  "is_http u \<longleftrightarrow> starts_with ''http://'' u \<or> starts_with ''https://'' u"

text \<open>
  \<^verbatim>\<open>
  const allAssetUrls = Array.from(new Set([...htmlAssetUrls, ...cssAssetUrls]
                                            .filter(u => /^https?:\/\//.test(u))));
  \<close>
\<close>

definition allAssetUrls :: "string list \<Rightarrow> string list \<Rightarrow> string list" where
  "allAssetUrls htmlAssetUrls cssAssetUrls = uniq (filter is_http (htmlAssetUrls @ cssAssetUrls))"

text \<open>
  A JavaScript \<^verbatim>\<open>Map\<close> keeps its entries in insertion order; \<^verbatim>\<open>set\<close> on a key that is
  present replaces the value where the entry stands.
\<close>

fun map_set :: "('k \<times> 'v) list \<Rightarrow> 'k \<Rightarrow> 'v \<Rightarrow> ('k \<times> 'v) list" where
  "map_set [] k v = [(k, v)]"
| "map_set ((k', v') # m) k v = (if k' = k then (k, v) # m else (k', v') # map_set m k v)"

text \<open>
  \<^verbatim>\<open>
  const urlToLocalRel = new Map();
  let ok = 0, fail = 0;
  for (const r of results) {
    if (!r || !r.ok) { fail++; continue; }
    const localRel = localPathForAsset(r.finalUrl || r.url, r.contentType);
    urlToLocalRel.set(r.finalUrl || r.url, localRel);
    urlToLocalRel.set(r.url, localRel);
    const abs = path.join(folder, localRel);
    await fs.mkdir(path.dirname(abs), { recursive: true });
    await fs.writeFile(abs, r.buf);
    ok++;
  }
  \<close>
  The state of the loop: the map, the two counters, and the files written so far (local
  path and bytes, in order). The file system calls are taken to succeed.
\<close>

record saving =
  urlToLocalRel :: "(string \<times> string) list"
  saved :: nat
  failed :: nat
  files :: "(string \<times> string) list"

text \<open>\<^verbatim>\<open>r.finalUrl || r.url\<close>\<close>

definition target_url :: "string \<Rightarrow> string \<Rightarrow> string" where
  "target_url url final = (if final = [] then url else final)"

fun save_step :: "lib \<Rightarrow> saving \<Rightarrow> outcome option \<Rightarrow> error + saving" where
  "save_step L st None = Inr (st\<lparr>failed := failed st + 1\<rparr>)"
| "save_step L st (Some (Fail url e)) = Inr (st\<lparr>failed := failed st + 1\<rparr>)"
| "save_step L st (Some (Ok url final ctype buf)) =
     (case localPathForAsset L (target_url url final) ctype of
        Inl e \<Rightarrow> Inl e
      | Inr localRel \<Rightarrow>
          Inr (st\<lparr>urlToLocalRel :=
                      map_set (map_set (urlToLocalRel st) (target_url url final) localRel) url localRel,
                   files := files st @ [(localRel, buf)],
                   saved := saved st + 1\<rparr>))"

fun save_loop :: "lib \<Rightarrow> saving \<Rightarrow> outcome option list \<Rightarrow> error + saving" where
  "save_loop L st [] = Inr st"
| "save_loop L st (r # rs) =
     (case save_step L st r of Inl e \<Rightarrow> Inl e | Inr st' \<Rightarrow> save_loop L st' rs)"

definition saveAssets :: "lib \<Rightarrow> outcome option list \<Rightarrow> error + saving" where
  "saveAssets L results = save_loop L \<lparr>urlToLocalRel = [], saved = 0, failed = 0, files = []\<rparr> results"

text \<open>The keys an entry of the result array writes.\<close>

fun keys_of :: "outcome option \<Rightarrow> string set" where
  "keys_of (Some (Ok url final ctype buf)) = {target_url url final, url}"
| "keys_of _ = {}"

text \<open>
  The libraries at the arguments the worked examples use: a finite excerpt of what
  \<^verbatim>\<open>URL\<close>, \<^verbatim>\<open>path\<close>, \<^verbatim>\<open>crypto\<close> and \<^verbatim>\<open>mime-types\<close> return there.
\<close>

definition example_pathname :: "string \<Rightarrow> string option" where
  "example_pathname = map_of
     [(''https://x.test/logo'', ''/logo''),
      (''http://x.test/logo'', ''/logo''),
      (''https://x.test/a.png'', ''/a.png''),
      (''https://x.test/b.png'', ''/b.png'')]"

definition example_extname :: "string \<Rightarrow> string" where
  "example_extname p = (if p = ''/a.png'' \<or> p = ''/b.png'' then ''.png'' else [])"

definition example_basename :: "string \<Rightarrow> string" where
  "example_basename p =
     (if p = ''/logo'' then ''logo'' else if p = ''/a.png'' then ''a.png''
      else if p = ''/b.png'' then ''b.png'' else [])"

definition example_sha1 :: "string \<Rightarrow> string" where
  "example_sha1 s =
     (if s = ''https://x.test/logo'' then ''8f97bfe56cc6e5f3960cc7eaa945eb45d48f6af1''
      else if s = ''http://x.test/logo'' then ''cebc1d80854180f29e9d8bf9ed10cf04eb06ab23''
      else if s = ''https://x.test/a.png'' then ''5449d8ba5949c51d65ed87c5314292efa35ad9ff''
      else if s = ''https://x.test/b.png'' then ''720a210c191b4572a497966433cc726256552814''
      else [])"

definition example_mime_lookup :: "string \<Rightarrow> string option" where
  "example_mime_lookup = map_of [(''.png'', ''image/png'')]"

definition example_mime_extension :: "string \<Rightarrow> string option" where
  "example_mime_extension = map_of [(''image/png'', ''png''), (''text/html'', ''html'')]"

definition example_resolve :: "string \<Rightarrow> string \<Rightarrow> string option" where
  "example_resolve rel base =
     (if rel \<in> set [''https://x.test/a.png'', ''https://x.test/b.png'', ''https://x.test/logo'']
      then Some rel else None)"

definition example_lib :: lib where
  "example_lib =
     \<lparr>url_resolve = example_resolve, url_pathname = example_pathname,
      path_extname = example_extname, path_basename = example_basename,
      sha1_hex = example_sha1, mime_lookup = example_mime_lookup,
      mime_extension = example_mime_extension\<rparr>"

text \<open>Steps 5 and 6 of \<^verbatim>\<open>main\<close> and the loop that follows: the two asset lists are
  combined, downloaded and saved.\<close>

definition download_and_save ::
  "lib \<Rightarrow> client \<Rightarrow> string list \<Rightarrow> string list \<Rightarrow> int \<Rightarrow> nat list \<Rightarrow> error + saving" where
  "download_and_save L get htmlAssetUrls cssAssetUrls limit sched =
     saveAssets L (downloadWithConcurrency (allAssetUrls htmlAssetUrls cssAssetUrls) get limit sched)"

text \<open>The HTTP client only ever requests http and https URLs, so the final URL it
  reports for a response, when it reports one, is such a URL.\<close>

definition reports_http_urls :: "client \<Rightarrow> bool" where
  "reports_http_urls get \<longleftrightarrow>
     (\<forall>u res f. get u = Inr res \<and> responseUrl res = Some f \<and> f \<noteq> [] \<longrightarrow> is_http f)"

text \<open>Two results of a run in which the page references the same logo by an http and by
  an https URL, the first redirected to the second; the second request is answered with an
  HTML page.\<close>

definition logo_results :: "outcome option list" where
  "logo_results =
     [Some (Ok ''http://x.test/logo'' ''https://x.test/logo'' ''image/png'' ''PNG''),
      Some (Ok ''https://x.test/logo'' ''https://x.test/logo'' ''text/html'' ''<html></html>'')]"

definition mixed_results :: "outcome option list" where
  "mixed_results =
     [Some (Ok ''https://x.test/a.png'' ''https://x.test/a.png'' ''image/png'' ''PNG''),
      Some (Fail ''https://x.test/missing.png'' (NonOkHttp 404 ''https://x.test/missing.png'')),
      None,
      Some (Ok ''http://x.test/logo'' ''https://x.test/logo'' ''image/png'' ''PNG'')]"

definition mixed_saved :: saving where
  "mixed_saved =
     \<lparr>urlToLocalRel =
        [(''https://x.test/a.png'', ''assets/img/a-5449d8ba.png''),
         (''https://x.test/logo'', ''assets/img/logo-8f97bfe5.png''),
         (''http://x.test/logo'', ''assets/img/logo-8f97bfe5.png'')],
      saved = 2, failed = 2,
      files = [(''assets/img/a-5449d8ba.png'', ''PNG''),
               (''assets/img/logo-8f97bfe5.png'', ''PNG'')]\<rparr>"

definition logo_saved_1 :: saving where
  "logo_saved_1 =
     \<lparr>urlToLocalRel =
        [(''https://x.test/logo'', ''assets/img/logo-8f97bfe5.png''),
         (''http://x.test/logo'', ''assets/img/logo-8f97bfe5.png'')],
      saved = 1, failed = 0,
      files = [(''assets/img/logo-8f97bfe5.png'', ''PNG'')]\<rparr>"

definition logo_saved_2 :: saving where
  "logo_saved_2 =
     \<lparr>urlToLocalRel =
        [(''https://x.test/a.png'', ''assets/img/a-5449d8ba.png''),
         (''https://x.test/logo'', ''assets/img/logo-8f97bfe5.png''),
         (''http://x.test/logo'', ''assets/img/logo-8f97bfe5.png'')],
      saved = 3, failed = 2,
      files = [(''assets/img/a-5449d8ba.png'', ''PNG''),
               (''assets/img/logo-8f97bfe5.png'', ''PNG''),
               (''assets/img/logo-8f97bfe5.png'', ''other bytes'')]\<rparr>"

definition a_saved :: saving where
  "a_saved =
     \<lparr>urlToLocalRel = [(''https://x.test/a.png'', ''assets/img/a-5449d8ba.png'')],
      saved = 1, failed = 1,
      files = [(''assets/img/a-5449d8ba.png'', ''PNG'')]\<rparr>"

section \<open>Regular expressions\<close>

text \<open>
  The program scans CSS with two regular expressions, both with the flags \<^verbatim>\<open>g\<close> and \<^verbatim>\<open>i\<close>:
  \<^verbatim>\<open>
  const CSS_URL_RE = /url\(\s*(['"]?)([^'")]+)\1\s*\)/gi;
  const IMPORT_RE  = /@import\s+(?:url\()?["']?([^"')]+)["']?\)?[^;]*;/gi;
  \<close>
  They are modelled as data, interpreted by a backtracking matcher that follows the
  ECMAScript rules for the constructs they use: a character or class, the greedy
  quantifiers \<^verbatim>\<open>*\<close>, \<^verbatim>\<open>+\<close> and \<^verbatim>\<open>?\<close>, capture groups and a backreference. With the flag
  \<^verbatim>\<open>i\<close> a literal letter matches both of its cases.
\<close>

definition dquote :: char where "dquote = CHR 0x22"
definition squote :: char where "squote = CHR 0x27"
definition backtick :: char where "backtick = CHR 0x60"
definition newline :: char where "newline = CHR 0x0A"

text \<open>\<^verbatim>\<open>\s\<close>, and what \<^verbatim>\<open>trim\<close> strips: tab, line feed, vertical tab, form feed, carriage
  return, space and no-break space (the white space among the code units below 256).\<close>

definition is_space :: "char \<Rightarrow> bool" where
  "is_space c \<longleftrightarrow> c \<in> set [CHR 0x09, CHR 0x0A, CHR 0x0B, CHR 0x0C, CHR 0x0D, CHR 0x20, CHR 0xA0]"

definition trim :: "string \<Rightarrow> string" where
  "trim s = rev (dropWhile is_space (rev (dropWhile is_space s)))"

definition canon :: "char \<Rightarrow> char" where
  "canon c = (case map_of (zip lower_letters upper_letters) c of Some d \<Rightarrow> d | None \<Rightarrow> c)"

datatype cls = Lit char | Space | AnyOf string | NoneOf string

fun in_cls :: "cls \<Rightarrow> char \<Rightarrow> bool" where
  "in_cls (Lit c) x = (canon x = canon c)"
| "in_cls Space x = is_space x"
| "in_cls (AnyOf cs) x = (x \<in> set cs)"
| "in_cls (NoneOf cs) x = (x \<notin> set cs)"

datatype rx =
    One cls
  | Star cls
  | Plus cls
  | OptOne cls
  | OptStr string
  | Grp nat rx
  | Back nat

text \<open>What is left to match: items of the expression, and the ends of the capture groups
  that are open (with the input as it stood where the group began).\<close>

datatype instr = I rx | Close nat string

type_synonym caps = "(nat \<times> string) list"

text \<open>A group that has not taken part in the match reads as the empty string.\<close>

definition cap_get :: "caps \<Rightarrow> nat \<Rightarrow> string" where
  "cap_get c n = (case map_of c n of Some s \<Rightarrow> s | None \<Rightarrow> [])"

definition matches_lit :: "string \<Rightarrow> string \<Rightarrow> bool" where
  "matches_lit lit s \<longleftrightarrow> length lit \<le> length s \<and> map canon (take (length lit) s) = map canon lit"

fun rx_size :: "rx \<Rightarrow> nat" where
  "rx_size (Grp n r) = rx_size r + 2"
| "rx_size _ = 1"

fun instr_size :: "instr \<Rightarrow> nat" where
  "instr_size (I r) = rx_size r"
| "instr_size (Close n s) = 1"

text \<open>
  \<open>rx_match k s c\<close> matches the items \<open>k\<close> at the start of \<open>s\<close> and returns the rest of the
  input with the captures, or \<open>None\<close>. A quantifier first takes as many characters as it
  can and gives them back one by one while the rest of the expression fails
  (\<open>rx_repeat\<close>, which counts down from the longest run).
\<close>

function rx_match :: "instr list \<Rightarrow> string \<Rightarrow> caps \<Rightarrow> (string \<times> caps) option"
  and rx_repeat :: "nat \<Rightarrow> instr list \<Rightarrow> string \<Rightarrow> caps \<Rightarrow> nat \<Rightarrow> (string \<times> caps) option" where
  "rx_match [] s c = Some (s, c)"
| "rx_match (I (One cl) # k) s c =
     (case s of [] \<Rightarrow> None | x # xs \<Rightarrow> if in_cls cl x then rx_match k xs c else None)"
| "rx_match (I (Star cl) # k) s c = rx_repeat 0 k s c (length (takeWhile (in_cls cl) s))"
| "rx_match (I (Plus cl) # k) s c = rx_repeat 1 k s c (length (takeWhile (in_cls cl) s))"
| "rx_match (I (OptOne cl) # k) s c =
     (case (case s of [] \<Rightarrow> None | x # xs \<Rightarrow> if in_cls cl x then rx_match k xs c else None) of
        Some r \<Rightarrow> Some r
      | None \<Rightarrow> rx_match k s c)"
| "rx_match (I (OptStr lit) # k) s c =
     (case (if matches_lit lit s then rx_match k (drop (length lit) s) c else None) of
        Some r \<Rightarrow> Some r
      | None \<Rightarrow> rx_match k s c)"
| "rx_match (I (Grp n r) # k) s c = rx_match (I r # Close n s # k) s c"
| "rx_match (Close n start # k) s c = rx_match k s ((n, take (length start - length s) start) # c)"
| "rx_match (I (Back n) # k) s c =
     (if matches_lit (cap_get c n) s then rx_match k (drop (length (cap_get c n)) s) c else None)"
| "rx_repeat lo k s c n =
     (if n < lo then None
      else (case rx_match k (drop n s) c of
              Some r \<Rightarrow> Some r
            | None \<Rightarrow> if n = 0 then None else rx_repeat lo k s c (n - 1)))"
  by pat_completeness auto
termination
  by (relation "inv_image (less_than <*lex*> less_than)
        (\<lambda>x. case x of
           Inl (k, s, c) \<Rightarrow> (sum_list (map instr_size k), 0)
         | Inr (lo, k, s, c, n) \<Rightarrow> (sum_list (map instr_size k), Suc n))")
     auto

text \<open>\<^verbatim>\<open>re.exec\<close> at one position: the length of the match and its captures.\<close>

definition exec_at :: "rx list \<Rightarrow> string \<Rightarrow> (nat \<times> caps) option" where
  "exec_at re s =
     (case rx_match (map I re) s [] of
        None \<Rightarrow> None
      | Some (rest, c) \<Rightarrow> Some (length s - length rest, c))"

text \<open>
  A global scan cuts the input into the matches, left to right and not overlapping, and
  the characters between them. (After an empty match the scan moves on by one
  character, as \<^verbatim>\<open>lastIndex\<close> does.)
\<close>

datatype piece = Skipped char | Match string caps

function scan :: "rx list \<Rightarrow> string \<Rightarrow> piece list" where
  "scan re s =
     (case exec_at re s of
        Some (n, c) \<Rightarrow>
          if n = 0
          then Match [] c # (case s of [] \<Rightarrow> [] | x # xs \<Rightarrow> Skipped x # scan re xs)
          else Match (take n s) c # scan re (drop n s)
      | None \<Rightarrow> (case s of [] \<Rightarrow> [] | x # xs \<Rightarrow> Skipped x # scan re xs))"
  by pat_completeness auto
termination
  by (relation "measure (\<lambda>(re, s). length s)") (auto simp: exec_at_def split: option.splits)

declare scan.simps [simp del]

definition CSS_URL_RE :: "rx list" where
  "CSS_URL_RE =
     [One (Lit CHR ''u''), One (Lit CHR ''r''), One (Lit CHR ''l''), One (Lit CHR ''(''),
      Star Space,
      Grp 1 (OptOne (AnyOf [squote, dquote])),
      Grp 2 (Plus (NoneOf [squote, dquote, CHR '')''])),
      Back 1,
      Star Space,
      One (Lit CHR '')'')]"

definition IMPORT_RE :: "rx list" where
  "IMPORT_RE =
     [One (Lit CHR ''@''), One (Lit CHR ''i''), One (Lit CHR ''m''), One (Lit CHR ''p''),
      One (Lit CHR ''o''), One (Lit CHR ''r''), One (Lit CHR ''t''),
      Plus Space,
      OptStr ''url('',
      OptOne (AnyOf [dquote, squote]),
      Grp 1 (Plus (NoneOf [dquote, squote, CHR '')''])),
      OptOne (AnyOf [dquote, squote]),
      OptOne (Lit CHR '')''),
      Star (NoneOf '';''),
      One (Lit CHR '';'')]"

section \<open>CSS processor\<close>

text \<open>Numbers and errors as they appear in messages.\<close>

function show_nat :: "nat \<Rightarrow> string" where
  "show_nat n = (if n < 10 then [digits ! n] else show_nat (n div 10) @ [digits ! (n mod 10)])"
  by pat_completeness auto
termination
  by (relation "measure id") auto

declare show_nat.simps [simp del]

definition show_int :: "int \<Rightarrow> string" where
  "show_int i = (if i < 0 then CHR ''-'' # show_nat (nat (- i)) else show_nat (nat i))"

text \<open>\<^verbatim>\<open>e.message\<close>\<close>

fun message :: "error \<Rightarrow> string" where
  "message (InvalidUrl u) = ''Invalid URL: '' @ u"
| "message (RequestFailed msg) = msg"
| "message (NonOkStatus s u) = ''Non-OK HTTP status '' @ show_int s @ '' for '' @ u"
| "message (NonOkHttp s u) = ''Non-OK HTTP '' @ show_int s @ '' for '' @ u"
| "message (EmptyHtml u) = ''Empty HTML from '' @ u"
| "message (ReferenceError name) = name @ '' is not defined''"

text \<open>
  \<^verbatim>\<open>
  async function fetchText(url, client) {
    const res = await client.get(url, { responseType: 'text', headers: { Accept: '*/*' } });
    if (res.status < 200 || res.status >= 300) throw new Error(`Non-OK HTTP ${res.status} for ${url}`);
    return { text: String(res.data || ''), finalUrl: res.request?.res?.responseUrl || url,
             contentType: res.headers['content-type'] || '' };
  }
  \<close>
\<close>

definition fetchText :: "client \<Rightarrow> string \<Rightarrow> error + fetched" where
  "fetchText get url =
     (case get url of
        Inl e \<Rightarrow> Inl e
      | Inr res \<Rightarrow>
          if status res < 200 \<or> status res \<ge> 300 then Inl (NonOkHttp (status res) url)
          else Inr \<lparr>payload = body res, finalUrl = or_else (responseUrl res) url,
                     contentType = or_else (contentTypeHeader res) []\<rparr>)"

text \<open>\<^verbatim>\<open>set.add(x)\<close> on a \<^verbatim>\<open>Set\<close> kept in insertion order.\<close>

definition set_add :: "'a list \<Rightarrow> 'a \<Rightarrow> 'a list" where
  "set_add xs x = (if x \<in> set xs then xs else xs @ [x])"

text \<open>\<^verbatim>\<open>/^(data:|#|blob:)/i.test(val)\<close>\<close>

definition not_fetchable :: "string \<Rightarrow> bool" where
  "not_fetchable val \<longleftrightarrow> matches_lit ''data:'' val \<or> matches_lit ''#'' val \<or> matches_lit ''blob:'' val"

text \<open>
  \<^verbatim>\<open>
  function rewriteCssUrlsToAbs(css, cssFileUrl, collect) {
    return css.replace(CSS_URL_RE, (m,q,p) => {
      const val = (p||'').trim();
      if (/^(data:|#|blob:)/i.test(val)) return `url(${val})`;
      try { const abs = new URL(val, cssFileUrl).toString(); collect && collect.add(abs); return `url(${abs})`; }
      catch { return m; }
    });
  }
  \<close>
  The callback, for one match: the text that replaces it and the asset set afterwards.
\<close>

definition css_url_callback ::
  "lib \<Rightarrow> string \<Rightarrow> string \<Rightarrow> caps \<Rightarrow> string list \<Rightarrow> string \<times> string list" where
  "css_url_callback L cssFileUrl m c collect =
     (let val = trim (cap_get c 2)
      in if not_fetchable val then (''url('' @ val @ '')'', collect)
         else (case url_resolve L val cssFileUrl of
                 Some absUrl \<Rightarrow> (''url('' @ absUrl @ '')'', set_add collect absUrl)
               | None \<Rightarrow> (m, collect)))"

fun rewrite_pieces ::
  "lib \<Rightarrow> string \<Rightarrow> piece list \<Rightarrow> string list \<Rightarrow> string \<times> string list" where
  "rewrite_pieces L cssFileUrl [] collect = ([], collect)"
| "rewrite_pieces L cssFileUrl (Skipped x # ps) collect =
     (let (rest, collect') = rewrite_pieces L cssFileUrl ps collect in (x # rest, collect'))"
| "rewrite_pieces L cssFileUrl (Match m c # ps) collect =
     (let (rep, collect1) = css_url_callback L cssFileUrl m c collect;
          (rest, collect') = rewrite_pieces L cssFileUrl ps collect1
      in (rep @ rest, collect'))"

definition rewriteCssUrlsToAbs ::
  "lib \<Rightarrow> string \<Rightarrow> string \<Rightarrow> string list \<Rightarrow> string \<times> string list" where
  "rewriteCssUrlsToAbs L css cssFileUrl collect =
     rewrite_pieces L cssFileUrl (scan CSS_URL_RE css) collect"

text \<open>
  \<^verbatim>\<open>out.replace(raw, rep)\<close> with a string pattern replaces the first occurrence of
  \<^verbatim>\<open>raw\<close>; in the replacement text \<^verbatim>\<open>$$\<close> stands for a dollar sign, \<^verbatim>\<open>$&\<close> for the matched
  text, and a dollar sign followed by a backtick or by a single quote for the text before
  or after the match. There are no capture groups, so every other dollar sign stands for
  itself.
\<close>

fun split_first :: "string \<Rightarrow> string \<Rightarrow> (string \<times> string) option" where
  "split_first pat [] = (if pat = [] then Some ([], []) else None)"
| "split_first pat (x # xs) =
     (if starts_with pat (x # xs) then Some ([], drop (length pat) (x # xs))
      else map_option (\<lambda>(front, back). (x # front, back)) (split_first pat xs))"

fun expand :: "string \<Rightarrow> string \<Rightarrow> string \<Rightarrow> string \<Rightarrow> string" where
  "expand matched front back (a # b # r) =
     (if a = CHR ''$'' \<and> b = CHR ''$'' then CHR ''$'' # expand matched front back r
      else if a = CHR ''$'' \<and> b = CHR ''&'' then matched @ expand matched front back r
      else if a = CHR ''$'' \<and> b = backtick then front @ expand matched front back r
      else if a = CHR ''$'' \<and> b = squote then back @ expand matched front back r
      else a # expand matched front back (b # r))"
| "expand matched front back r = r"

definition replace_first :: "string \<Rightarrow> string \<Rightarrow> string \<Rightarrow> string" where
  "replace_first s pat rep =
     (case split_first pat s of
        None \<Rightarrow> s
      | Some (front, back) \<Rightarrow> front @ expand pat front back rep @ back)"

text \<open>
  \<^verbatim>\<open>
  async function inlineCssImports(css, cssUrl, client, depth, visited, collect) {
    if (depth <= 0) return css;
    let out = css; IMPORT_RE.lastIndex = 0;
    const tasks = []; const fallbacks = [];
    let m;
    while ((m = IMPORT_RE.exec(css)) !== null) {
      const raw = m[0], href = m[1];
      try {
        const abs = new URL(href, cssUrl).toString();
        if (visited.has(abs)) { fallbacks.push({ raw, rep: `/* @import skipped (visited): ${abs} */` }); continue; }
        visited.add(abs);
        tasks.push((async () => {
          try {
            const { text, finalUrl } = await fetchText(abs, client);
            let rewritten = rewriteCssUrlsToAbs(text, finalUrl, collect);
            rewritten = await inlineCssImports(rewritten, finalUrl, client, depth-1, visited, collect);
            return { raw, rep: `/* @import inlined from ${finalUrl} */\n${rewritten}\n/* end import */` };
          } catch (e) { return { raw, rep: `/* @import failed: ${abs} (${e.message}) */` }; }
        })());
      } catch { fallbacks.push({ raw, rep: `/* @import skipped (bad URL): ${href} */` }); }
    }
    const results = (await Promise.all(tasks)).concat(fallbacks);
    for (const r of results) out = out.replace(r.raw, r.rep);
    return out;
  }
  \<close>
  The state shared by all calls of one run: the visited set, the asset set, and (kept by
  the model only) the log of the stylesheet requests in the order they are issued and a
  clock that counts the resumed tasks.
\<close>

datatype request = Linked string | Imported string

record css_state =
  visited :: "string list"
  cssAssets :: "string list"
  requests :: "request list"
  clock :: nat

text \<open>
  A call first runs its \<^verbatim>\<open>while\<close> loop to the end without interruption: every import is
  sorted into a task, whose request is issued at once, or a fallback. A task is then
  \<open>Pending\<close> until its response arrives; its continuation rewrites the text and runs the
  loop of the nested call, which leaves the task \<open>Loaded\<close> with tasks of its own, or
  \<open>Failed\<close>. The number kept in a pending task is the depth of its nested call.
\<close>

datatype task =
    Pending string string nat
  | Failed string string error
  | Loaded string string string "task list" "(string \<times> string) list"

fun import_loop ::
  "lib \<Rightarrow> string \<Rightarrow> nat \<Rightarrow> piece list \<Rightarrow> css_state \<Rightarrow>
     task list \<times> (string \<times> string) list \<times> css_state" where
  "import_loop L cssUrl d [] st = ([], [], st)"
| "import_loop L cssUrl d (Skipped x # ps) st = import_loop L cssUrl d ps st"
| "import_loop L cssUrl d (Match raw c # ps) st =
     (let href = cap_get c 1
      in case url_resolve L href cssUrl of
           None \<Rightarrow>
             (let (tasks, fallbacks, st') = import_loop L cssUrl d ps st
              in (tasks, (raw, ''/* @import skipped (bad URL): '' @ href @ '' */'') # fallbacks, st'))
         | Some absUrl \<Rightarrow>
             if absUrl \<in> set (visited st)
             then (let (tasks, fallbacks, st') = import_loop L cssUrl d ps st
                   in (tasks, (raw, ''/* @import skipped (visited): '' @ absUrl @ '' */'') # fallbacks, st'))
             else (let (tasks, fallbacks, st') =
                         import_loop L cssUrl d ps
                           (st\<lparr>visited := visited st @ [absUrl],
                               requests := requests st @ [Imported absUrl]\<rparr>)
                   in (Pending raw absUrl d # tasks, fallbacks, st')))"

definition start_call ::
  "lib \<Rightarrow> string \<Rightarrow> string \<Rightarrow> nat \<Rightarrow> css_state \<Rightarrow>
     task list \<times> (string \<times> string) list \<times> css_state" where
  "start_call L css cssUrl depth st =
     (if depth = 0 then ([], [], st)
      else import_loop L cssUrl (depth - 1) (scan IMPORT_RE css) st)"

text \<open>The continuation of a pending task, run when its response has arrived.\<close>

definition settle ::
  "lib \<Rightarrow> client \<Rightarrow> string \<Rightarrow> string \<Rightarrow> nat \<Rightarrow> css_state \<Rightarrow> task \<times> css_state" where
  "settle L get raw absUrl d st =
     (case fetchText get absUrl of
        Inl e \<Rightarrow> (Failed raw absUrl e, st)
      | Inr f \<Rightarrow>
          (let (rewritten, collect) = rewriteCssUrlsToAbs L (payload f) (finalUrl f) (cssAssets st);
               (tasks, fallbacks, st') =
                  start_call L rewritten (finalUrl f) d (st\<lparr>cssAssets := collect\<rparr>)
           in (Loaded raw (finalUrl f) rewritten tasks fallbacks, st')))"

primrec pending_depths :: "task \<Rightarrow> nat multiset" where
  "pending_depths (Pending raw absUrl d) = {#d#}"
| "pending_depths (Failed raw absUrl e) = {#}"
| "pending_depths (Loaded raw final css tasks fallbacks) = sum_list (map pending_depths tasks)"

definition pending_count :: "task list \<Rightarrow> nat" where
  "pending_count tasks = size (sum_list (map pending_depths tasks))"

text \<open>The \<open>k\<close>-th pending task of the tree, counted from the left, is resumed.\<close>

fun resume_task :: "lib \<Rightarrow> client \<Rightarrow> nat \<Rightarrow> task \<Rightarrow> css_state \<Rightarrow> task \<times> css_state"
  and resume_tasks :: "lib \<Rightarrow> client \<Rightarrow> nat \<Rightarrow> task list \<Rightarrow> css_state \<Rightarrow> task list \<times> css_state" where
  "resume_task L get k (Pending raw absUrl d) st = settle L get raw absUrl d st"
| "resume_task L get k (Failed raw absUrl e) st = (Failed raw absUrl e, st)"
| "resume_task L get k (Loaded raw final css tasks fallbacks) st =
     (let (tasks', st') = resume_tasks L get k tasks st
      in (Loaded raw final css tasks' fallbacks, st'))"
| "resume_tasks L get k [] st = ([], st)"
| "resume_tasks L get k (t # ts) st =
     (if k < size (pending_depths t)
      then (let (t', st') = resume_task L get k t st in (t' # ts, st'))
      else (let (ts', st') = resume_tasks L get (k - size (pending_depths t)) ts st
            in (t # ts', st')))"

lemma import_loop_depths:
  "import_loop L cssUrl d ps st = (tasks, fallbacks, st') \<Longrightarrow>
   \<forall>x \<in># sum_list (map pending_depths tasks). x = d"
proof (induction L cssUrl d ps st arbitrary: tasks fallbacks st' rule: import_loop.induct)
  case (1 L cssUrl d st)
  then show ?case by simp
next
  case (2 L cssUrl d x ps st)
  then show ?case by simp
next
  case (3 L cssUrl d raw c ps st)
  show ?case
  proof (cases "url_resolve L (cap_get c 1) cssUrl")
    case None
    then show ?thesis using 3 by (auto simp: Let_def split: prod.splits)
  next
    case (Some a)
    then show ?thesis using 3 by (auto simp: Let_def split: prod.splits if_splits)
  qed
qed

lemma start_call_depths:
  assumes "start_call L css cssUrl d st = (tasks, fallbacks, st')"
  shows "\<forall>x \<in># sum_list (map pending_depths tasks). x < d"
proof (cases "d = 0")
  case True
  then show ?thesis using assms by (simp add: start_call_def)
next
  case False
  then have "import_loop L cssUrl (d - 1) (scan IMPORT_RE css) st = (tasks, fallbacks, st')"
    using assms by (simp add: start_call_def)
  from import_loop_depths [OF this] have "\<forall>x \<in># sum_list (map pending_depths tasks). x = d - 1" .
  then show ?thesis using False by fastforce
qed

lemma settle_depths:
  "\<forall>x \<in># pending_depths (fst (settle L get raw absUrl d st)). x < d"
proof (cases "fetchText get absUrl")
  case (Inl e)
  then show ?thesis by (simp add: settle_def)
next
  case (Inr f)
  obtain rewritten collect where
    r: "rewriteCssUrlsToAbs L (payload f) (finalUrl f) (cssAssets st) = (rewritten, collect)"
    by (cases "rewriteCssUrlsToAbs L (payload f) (finalUrl f) (cssAssets st)")
  obtain tasks fallbacks st' where
    s: "start_call L rewritten (finalUrl f) d (st\<lparr>cssAssets := collect\<rparr>) = (tasks, fallbacks, st')"
    by (cases "start_call L rewritten (finalUrl f) d (st\<lparr>cssAssets := collect\<rparr>)")
  show ?thesis using Inr r s start_call_depths [OF s] by (simp add: settle_def)
qed

text \<open>Resuming a pending task takes its depth out of the multiset of pending depths and
  puts in smaller ones only.\<close>

lemma resume_decreases:
  "k < size (pending_depths t) \<Longrightarrow>
     \<exists>I d K. pending_depths t = I + {#d#} \<and>
             pending_depths (fst (resume_task L get k t st)) = I + K \<and> (\<forall>x \<in># K. x < d)"
  "k < size (sum_list (map pending_depths ts)) \<Longrightarrow>
     \<exists>I d K. sum_list (map pending_depths ts) = I + {#d#} \<and>
             sum_list (map pending_depths (fst (resume_tasks L get k ts st))) = I + K \<and>
             (\<forall>x \<in># K. x < d)"
proof (induction L get k t st and L get k ts st rule: resume_task_resume_tasks.induct)
  case (1 L get k raw absUrl d st)
  have "pending_depths (Pending raw absUrl d) = {#} + {#d#}" by simp
  moreover have "pending_depths (fst (resume_task L get k (Pending raw absUrl d) st))
                   = {#} + pending_depths (fst (settle L get raw absUrl d st))" by simp
  ultimately show ?case using settle_depths [of L get raw absUrl d st] by blast
next
  case (2 L get k raw absUrl e st)
  then show ?case by simp
next
  case (3 L get k raw final css tasks fallbacks st)
  have "k < size (sum_list (map pending_depths tasks))" using "3.prems" by simp
  from "3.IH" [OF this] show ?case by (simp add: case_prod_unfold Let_def)
next
  case (4 L get k st)
  then show ?case by simp
next
  case (5 L get k t ts st)
  show ?case
  proof (cases "k < size (pending_depths t)")
    case True
    from "5.IH"(1) [OF True True] obtain I d K where
      "pending_depths t = I + {#d#}"
      "pending_depths (fst (resume_task L get k t st)) = I + K" "\<forall>x \<in># K. x < d"
      by blast
    then have "sum_list (map pending_depths (t # ts))
                 = (I + sum_list (map pending_depths ts)) + {#d#}"
      and "sum_list (map pending_depths (fst (resume_tasks L get k (t # ts) st)))
                 = (I + sum_list (map pending_depths ts)) + K"
      using True by (simp_all add: case_prod_unfold Let_def)
    with \<open>\<forall>x \<in># K. x < d\<close> show ?thesis by blast
  next
    case False
    then have "k - size (pending_depths t) < size (sum_list (map pending_depths ts))"
      using "5.prems" by simp
    from "5.IH"(2) [OF False this] obtain I d K where
      "sum_list (map pending_depths ts) = I + {#d#}"
      "sum_list (map pending_depths
         (fst (resume_tasks L get (k - size (pending_depths t)) ts st))) = I + K"
      "\<forall>x \<in># K. x < d"
      by blast
    then have "sum_list (map pending_depths (t # ts)) = (pending_depths t + I) + {#d#}"
      and "sum_list (map pending_depths (fst (resume_tasks L get k (t # ts) st)))
                 = (pending_depths t + I) + K"
      using False by (simp_all add: case_prod_unfold Let_def)
    with \<open>\<forall>x \<in># K. x < d\<close> show ?thesis by blast
  qed
qed

lemma resume_tasks_mult:
  assumes "k < pending_count tasks"
  shows "(sum_list (map pending_depths (fst (resume_tasks L get k tasks st))),
          sum_list (map pending_depths tasks)) \<in> mult less_than"
proof -
  from resume_decreases(2) [OF assms [unfolded pending_count_def]] obtain I d K where
    a: "sum_list (map pending_depths tasks) = I + {#d#}"
    and b: "sum_list (map pending_depths (fst (resume_tasks L get k tasks st))) = I + K"
    and c: "\<forall>x \<in># K. x < d"
    by blast
  have "(I + K, I + {#d#}) \<in> mult less_than"
    by (rule one_step_implies_mult) (use c in auto)
  then show ?thesis using a b by simp
qed

text \<open>
  The tasks of a call run until none is pending. Which pending task is resumed next is
  up to the network: the schedule \<open>sched\<close> names it, read at the clock and modulo the
  number of pending tasks.
\<close>

function run_tasks ::
  "lib \<Rightarrow> client \<Rightarrow> (nat \<Rightarrow> nat) \<Rightarrow> task list \<Rightarrow> css_state \<Rightarrow> task list \<times> css_state" where
  "run_tasks L get sched tasks st =
     (if pending_count tasks = 0 then (tasks, st)
      else (let k = sched (clock st) mod pending_count tasks;
                (tasks', st') = resume_tasks L get k tasks (st\<lparr>clock := Suc (clock st)\<rparr>)
            in run_tasks L get sched tasks' st'))"
  by pat_completeness auto
termination
  apply (relation "inv_image (mult less_than)
         (\<lambda>(L, get, sched, tasks, st). sum_list (map pending_depths tasks))")
   apply (simp add: wf_mult)
  apply (simp add: case_prod_unfold resume_tasks_mult)
  done

declare run_tasks.simps [simp del]

text \<open>
  When no task is pending, each task stands for one replacement: the failure comment, or
  the inlined text of the nested call, itself put together from its own results. (A
  pending task has no result yet; \<open>run_tasks\<close> leaves none.) The results of the tasks, in
  the order the tasks were created, are followed by the fallbacks.
\<close>

fun task_result :: "task \<Rightarrow> string \<times> string" where
  "task_result (Pending raw absUrl d) = (raw, raw)"
| "task_result (Failed raw absUrl e) =
     (raw, ''/* @import failed: '' @ absUrl @ '' ('' @ message e @ '') */'')"
| "task_result (Loaded raw final css tasks fallbacks) =
     (raw, ''/* @import inlined from '' @ final @ '' */'' @ [newline] @
           fold (\<lambda>(raw', rep) out. replace_first out raw' rep)
                (map task_result tasks @ fallbacks) css @
           [newline] @ ''/* end import */'')"

definition apply_results :: "string \<Rightarrow> (string \<times> string) list \<Rightarrow> string" where
  "apply_results css results = fold (\<lambda>(raw, rep) out. replace_first out raw rep) results css"

definition inlineCssImports ::
  "lib \<Rightarrow> client \<Rightarrow> (nat \<Rightarrow> nat) \<Rightarrow> string \<Rightarrow> string \<Rightarrow> nat \<Rightarrow> css_state \<Rightarrow> string \<times> css_state" where
  "inlineCssImports L get sched css cssUrl depth st =
     (let (tasks, fallbacks, st1) = start_call L css cssUrl depth st;
          (tasks', st2) = run_tasks L get sched tasks st1
      in (apply_results css (map task_result tasks' @ fallbacks), st2))"

text \<open>
  \<^verbatim>\<open>
  async function collectCssAndAssets(stylesheetUrls, inlineBlocks, client) {
    const visited = new Set();
    const cssAssets = new Set();
    const parts = [];
    for (const cssUrl of stylesheetUrls) {
      try {
        const { text, finalUrl, contentType } = await fetchText(cssUrl, client);
        if (!/text\/css|; ?charset=/i.test(contentType) && !finalUrl.endsWith('.css')) { parts.push(`/* Skipped non-CSS ${finalUrl} */`); continue; }
        let css = rewriteCssUrlsToAbs(text, finalUrl, cssAssets);
        css = await inlineCssImports(css, finalUrl, client, 2, visited, cssAssets);
        parts.push(`/* ===== CSS from ${finalUrl} ===== */\n${css}\n`);
      } catch (e) { parts.push(`/* Failed CSS ${cssUrl}: ${e.message} */`); }
    }
    for (const { css, baseUrl } of inlineBlocks) {
      let rew = rewriteCssUrlsToAbs(css, baseUrl, cssAssets);
      rew = await inlineCssImports(rew, baseUrl, client, 1, visited, cssAssets);
      parts.push(`/* ===== Inline <style> from ${baseUrl} ===== */\n${rew}\n`);
    }
    return { cssText: parts.join('\n'), cssAssetUrls: Array.from(cssAssets) };
  }
  \<close>
  The linked stylesheets are fetched one after the other (each \<^verbatim>\<open>await\<close> ends before the
  next iteration starts), so only the tasks inside one call of \<open>inlineCssImports\<close> overlap.
\<close>

definition contains_ci :: "string \<Rightarrow> string \<Rightarrow> bool" where
  "contains_ci sub s \<longleftrightarrow> contains (map canon sub) (map canon s)"

definition ends_with :: "string \<Rightarrow> string \<Rightarrow> bool" where
  "ends_with suf s \<longleftrightarrow> length suf \<le> length s \<and> drop (length s - length suf) s = suf"

text \<open>\<^verbatim>\<open>/text\/css|; ?charset=/i.test(contentType)\<close>\<close>

definition css_like :: "string \<Rightarrow> bool" where
  "css_like ctype \<longleftrightarrow>
     contains_ci ''text/css'' ctype \<or> contains_ci ''; charset='' ctype \<or> contains_ci '';charset='' ctype"

definition linked_part ::
  "lib \<Rightarrow> client \<Rightarrow> (nat \<Rightarrow> nat) \<Rightarrow> string \<Rightarrow> css_state \<Rightarrow> string \<times> css_state" where
  "linked_part L get sched cssUrl st =
     (let st0 = st\<lparr>requests := requests st @ [Linked cssUrl]\<rparr>
      in case fetchText get cssUrl of
           Inl e \<Rightarrow> (''/* Failed CSS '' @ cssUrl @ '': '' @ message e @ '' */'', st0)
         | Inr f \<Rightarrow>
             if \<not> css_like (contentType f) \<and> \<not> ends_with ''.css'' (finalUrl f)
             then (''/* Skipped non-CSS '' @ finalUrl f @ '' */'', st0)
             else (let (css, collect) = rewriteCssUrlsToAbs L (payload f) (finalUrl f) (cssAssets st0);
                       (css', st') = inlineCssImports L get sched css (finalUrl f) 2
                                       (st0\<lparr>cssAssets := collect\<rparr>)
                   in (''/* ===== CSS from '' @ finalUrl f @ '' ===== */'' @ [newline] @ css' @ [newline],
                       st')))"

definition inline_part ::
  "lib \<Rightarrow> client \<Rightarrow> (nat \<Rightarrow> nat) \<Rightarrow> string \<times> string \<Rightarrow> css_state \<Rightarrow> string \<times> css_state" where
  "inline_part L get sched block st =
     (let (css, baseUrl) = block;
          (rew, collect) = rewriteCssUrlsToAbs L css baseUrl (cssAssets st);
          (rew', st') = inlineCssImports L get sched rew baseUrl 1 (st\<lparr>cssAssets := collect\<rparr>)
      in (''/* ===== Inline <style> from '' @ baseUrl @ '' ===== */'' @ [newline] @ rew' @ [newline],
          st'))"

fun each_part :: "('a \<Rightarrow> css_state \<Rightarrow> string \<times> css_state) \<Rightarrow> 'a list \<Rightarrow> css_state \<Rightarrow>
    string list \<times> css_state" where
  "each_part f [] st = ([], st)"
| "each_part f (x # xs) st =
     (let (part, st1) = f x st; (parts, st2) = each_part f xs st1 in (part # parts, st2))"

fun join_lines :: "string list \<Rightarrow> string" where
  "join_lines [] = []"
| "join_lines [p] = p"
| "join_lines (p # ps) = p @ [newline] @ join_lines ps"

definition collectCssAndAssets ::
  "lib \<Rightarrow> client \<Rightarrow> (nat \<Rightarrow> nat) \<Rightarrow> string list \<Rightarrow> (string \<times> string) list \<Rightarrow>
     string \<times> css_state" where
  "collectCssAndAssets L get sched stylesheetUrls inlineBlocks =
     (let st0 = \<lparr>visited = [], cssAssets = [], requests = [], clock = 0\<rparr>;
          (parts1, st1) = each_part (linked_part L get sched) stylesheetUrls st0;
          (parts2, st2) = each_part (inline_part L get sched) inlineBlocks st1
      in (join_lines (parts1 @ parts2), st2))"

text \<open>The result object: \<^verbatim>\<open>cssText\<close> is the first component, \<^verbatim>\<open>cssAssetUrls\<close> is the asset
  set of the final state.\<close>

text \<open>
  Stylesheets for the worked examples, all served from \<^verbatim>\<open>https://x.test/\<close> as
  \<^verbatim>\<open>text/css\<close>: \<^verbatim>\<open>self.css\<close> imports itself; \<^verbatim>\<open>a.css\<close> and \<^verbatim>\<open>b.css\<close> import each other;
  \<^verbatim>\<open>c0.css\<close>, \<^verbatim>\<open>c1.css\<close>, \<^verbatim>\<open>c2.css\<close>, \<^verbatim>\<open>c3.css\<close> form a chain of three imports.
\<close>

definition style_files :: "(string \<times> string) list" where
  "style_files =
     [(''self.css'', ''@import url(self.css); .s{color:red}''),
      (''a.css'', ''@import url(b.css); .a{}''),
      (''b.css'', ''@import url(a.css); .b{}''),
      (''c0.css'', ''@import url(c1.css); .c0{}''),
      (''c1.css'', ''@import url(c2.css); .c1{}''),
      (''c2.css'', ''@import url(c3.css); .c2{}''),
      (''c3.css'', ''.c3{}'')]"

definition style_net :: client where
  "style_net u =
     (case map_of (map (\<lambda>(f, css). (''https://x.test/'' @ f, css)) style_files) u of
        Some css \<Rightarrow> Inr \<lparr>status = 200, body = css, responseUrl = Some u,
                          contentTypeHeader = Some ''text/css''\<rparr>
      | None \<Rightarrow> Inr not_found)"

text \<open>
  \<^verbatim>\<open>new URL(rel, base).toString()\<close> for these files: a bare file name is resolved against
  the directory of the base, an absolute URL of the site stands for itself, and
  \<^verbatim>\<open>http://[\<close> (an IPv6 host that is never closed) makes the constructor throw. Other
  arguments are outside the excerpt.
\<close>

definition style_resolve :: "string \<Rightarrow> string \<Rightarrow> string option" where
  "style_resolve rel base =
     (if rel = ''http://['' then None
      else if base \<notin> set (map (\<lambda>(f, css). ''https://x.test/'' @ f) style_files) then None
      else if rel \<in> set (map fst style_files) \<or> rel = ''bg.png'' then Some (''https://x.test/'' @ rel)
      else if rel \<in> set (map (\<lambda>(f, css). ''https://x.test/'' @ f) style_files) then Some rel
      else None)"

definition style_lib :: lib where
  "style_lib = example_lib\<lparr>url_resolve := style_resolve\<rparr>"


definition reference :: "caps \<Rightarrow> string" where
  "reference c = trim (cap_get c 2)"

definition css_example :: string where
  "css_example =
     ''a{background:url(http://[)} b{background:url( '' @ [dquote] @ ''data:image/png;base64,AA=='' @
     [dquote] @ '' )} c{background:URL(bg.png)}''"


text \<open>The URLs requested as import targets, in the order of the requests.\<close>

fun imported :: "request list \<Rightarrow> string list" where
  "imported [] = []"
| "imported (Imported u # rs) = u # imported rs"
| "imported (Linked u # rs) = imported rs"

text \<open>
  Between two calls of \<open>inlineCssImports\<close> no task is pending: every URL in the visited
  set has been requested as an import target exactly once, in the order it was visited,
  and the continuation of every such request has run. While the tasks of a call are
  running, the continuations that have not run yet are those of the pending tasks.
\<close>

definition css_inv :: "css_state \<Rightarrow> bool" where
  "css_inv st \<longleftrightarrow>
     imported (requests st) = visited st \<and> distinct (visited st) \<and> clock st = length (visited st)"

definition run_inv :: "task list \<Rightarrow> css_state \<Rightarrow> bool" where
  "run_inv tasks st \<longleftrightarrow>
     imported (requests st) = visited st \<and> distinct (visited st) \<and>
     clock st + pending_count tasks = length (visited st)"

text \<open>One uninterrupted stretch of the program visits the URLs \<open>new\<close>, none of them
  visited before, and requests each of them.\<close>

definition grows :: "css_state \<Rightarrow> css_state \<Rightarrow> string list \<Rightarrow> bool" where
  "grows st st' new \<longleftrightarrow>
     visited st' = visited st @ new \<and> requests st' = requests st @ map Imported new \<and>
     clock st' = clock st \<and> distinct new \<and> set new \<inter> set (visited st) = {}"

definition self_visited :: css_state where
  "self_visited =
     \<lparr>visited = [''https://x.test/self.css''], cssAssets = [],
      requests = [Imported ''https://x.test/self.css''], clock = 1\<rparr>"

text \<open>
  A run is \<open>narrow\<close> when at most one task is pending at any moment: then the network has
  no choice, and the schedule does not matter.
\<close>

function narrow :: "lib \<Rightarrow> client \<Rightarrow> task list \<Rightarrow> css_state \<Rightarrow> bool" where
  "narrow L get tasks st =
     (if pending_count tasks = 0 then True
      else if pending_count tasks = 1
      then (let (tasks', st') = resume_tasks L get 0 tasks (st\<lparr>clock := Suc (clock st)\<rparr>)
            in narrow L get tasks' st')
      else False)"
  by pat_completeness auto
termination
  apply (relation "inv_image (mult less_than)
         (\<lambda>(L, get, tasks, st). sum_list (map pending_depths tasks))")
   apply (simp add: wf_mult)
  apply (simp add: case_prod_unfold resume_tasks_mult)
  done

declare narrow.simps [simp del]

definition narrow_call :: "lib \<Rightarrow> client \<Rightarrow> string \<Rightarrow> string \<Rightarrow> nat \<Rightarrow> css_state \<Rightarrow> bool" where
  "narrow_call L get css cssUrl depth st =
     (let (tasks, fallbacks, st1) = start_call L css cssUrl depth st in narrow L get tasks st1)"

text \<open>How often a text occurs in another.\<close>

fun count_sub :: "string \<Rightarrow> string \<Rightarrow> nat" where
  "count_sub sub [] = 0"
| "count_sub sub (c # cs) = (if starts_with sub (c # cs) then 1 else 0) + count_sub sub cs"

text \<open>The consolidated CSS for the chain \<^verbatim>\<open>c0.css\<close> to \<^verbatim>\<open>c3.css\<close>: entered from the linked
  stylesheet \<^verbatim>\<open>c0.css\<close>, and entered from an inline block that imports \<^verbatim>\<open>c1.css\<close>.\<close>

definition chain_linked_css :: string where
  "chain_linked_css =
     ''/* ===== CSS from https://x.test/c0.css ===== */'' @ [newline] @
     ''/* @import inlined from https://x.test/c1.css */'' @ [newline] @
     ''/* @import inlined from https://x.test/c2.css */'' @ [newline] @
     ''@import url(https://x.test/c3.css); .c2{}'' @ [newline] @
     ''/* end import */ .c1{}'' @ [newline] @
     ''/* end import */ .c0{}'' @ [newline]"

definition chain_inline_css :: string where
  "chain_inline_css =
     ''/* ===== Inline <style> from https://x.test/c0.css ===== */'' @ [newline] @
     ''/* @import inlined from https://x.test/c1.css */'' @ [newline] @
     ''@import url(https://x.test/c2.css); .c1{}'' @ [newline] @
     ''/* end import */ p{}'' @ [newline]"

section \<open>Parsed HTML\<close>

text \<open>
  The program reads and changes the page through \<^verbatim>\<open>cheerio\<close>. A parsed document is a
  list of nodes; an element has a tag name, its attributes in order, and children.
  Parsing and serialising are the library's: \<open>cheerio_load\<close> is \<^verbatim>\<open>load(html)\<close>,
  \<open>cheerio_html\<close> is \<^verbatim>\<open>.html()\<close> of a list of nodes, and \<open>cheerio_fragment\<close> gives the nodes
  a string of markup stands for when it is passed to \<^verbatim>\<open>prepend\<close> or \<^verbatim>\<open>append\<close>.
\<close>

datatype node = Element string "(string \<times> string) list" "node list" | Text string

record cheerio =
  cheerio_load :: "string \<Rightarrow> node list"
  cheerio_html :: "node list \<Rightarrow> string"
  cheerio_fragment :: "string \<Rightarrow> node list"

text \<open>The markup \<^verbatim>\<open><link rel="stylesheet" href="style.css">\<close> and the element it stands
  for.\<close>

definition link_markup :: string where
  "link_markup =
     ''<link rel='' @ [dquote] @ ''stylesheet'' @ [dquote] @ '' href='' @ [dquote] @ ''style.css'' @
     [dquote] @ ''>''"

definition style_link :: node where
  "style_link = Element ''link'' [(''rel'', ''stylesheet''), (''href'', ''style.css'')] []"

text \<open>\<^verbatim>\<open>$(el).attr(name)\<close> is the value of the first attribute of that name, or undefined;
  \<^verbatim>\<open>$(el).attr(name, value)\<close> replaces it where it stands or adds it at the end.\<close>

definition attr :: "(string \<times> string) list \<Rightarrow> string \<Rightarrow> string option" where
  "attr a name = map_of a name"

definition has_attr :: "(string \<times> string) list \<Rightarrow> string \<Rightarrow> bool" where
  "has_attr a name \<longleftrightarrow> attr a name \<noteq> None"

text \<open>A value of JavaScript is truthy unless it is undefined or the empty string.\<close>

fun truthy :: "string option \<Rightarrow> bool" where
  "truthy None = False"
| "truthy (Some s) = (s \<noteq> [])"

text \<open>\<^verbatim>\<open>a || b\<close> on two possibly undefined strings.\<close>

definition js_or :: "string option \<Rightarrow> string option \<Rightarrow> string option" where
  "js_or a b = (if truthy a then a else b)"

text \<open>A value passed where a string is expected: undefined reads \<^verbatim>\<open>"undefined"\<close>.\<close>

fun js_string :: "string option \<Rightarrow> string" where
  "js_string None = ''undefined''"
| "js_string (Some s) = s"

text \<open>All elements of a document, in document order.\<close>

fun elems :: "node \<Rightarrow> node list" where
  "elems (Text t) = []"
| "elems (Element tag a cs) = Element tag a cs # concat (map elems cs)"

definition all_elems :: "node list \<Rightarrow> node list" where
  "all_elems doc = concat (map elems doc)"

text \<open>
  The selectors the program uses test the tag name and the attributes of one element.
  \<^verbatim>\<open>[a]\<close> asks for the attribute, \<^verbatim>\<open>[a="v"]\<close> for the value, \<^verbatim>\<open>[a~="v"]\<close> for \<^verbatim>\<open>v\<close> among the
  words of the value, \<^verbatim>\<open>[a*="v"]\<close> for \<^verbatim>\<open>v\<close> somewhere in the value. The selector engine
  compares the value of \<^verbatim>\<open>rel\<close> without regard to case in an HTML document, the value
  of \<^verbatim>\<open>as\<close> exactly.
\<close>

fun split_where :: "(char \<Rightarrow> bool) \<Rightarrow> string \<Rightarrow> string list" where
  "split_where p [] = [[]]"
| "split_where p (c # cs) =
     (if p c then [] # split_where p cs
      else (case split_where p cs of [] \<Rightarrow> [[c]] | w # ws \<Rightarrow> (c # w) # ws))"

definition words :: "string \<Rightarrow> string list" where
  "words s = filter (\<lambda>w. w \<noteq> []) (split_where is_space s)"

definition rel_is :: "(string \<times> string) list \<Rightarrow> string \<Rightarrow> bool" where
  "rel_is a v \<longleftrightarrow> (case attr a ''rel'' of None \<Rightarrow> False | Some r \<Rightarrow> map canon r = map canon v)"

definition rel_has_word :: "(string \<times> string) list \<Rightarrow> string \<Rightarrow> bool" where
  "rel_has_word a v \<longleftrightarrow>
     (case attr a ''rel'' of None \<Rightarrow> False | Some r \<Rightarrow> map canon v \<in> set (words (map canon r)))"

definition rel_contains :: "(string \<times> string) list \<Rightarrow> string \<Rightarrow> bool" where
  "rel_contains a v \<longleftrightarrow> (case attr a ''rel'' of None \<Rightarrow> False | Some r \<Rightarrow> contains_ci v r)"

definition as_is :: "(string \<times> string) list \<Rightarrow> string \<Rightarrow> bool" where
  "as_is a v \<longleftrightarrow> attr a ''as'' = Some v"

text \<open>\<^verbatim>\<open>link[rel~="stylesheet"]\<close>, \<^verbatim>\<open>link[rel="preload"][as="style"]\<close> and \<^verbatim>\<open>style\<close>.\<close>

definition stylesheet_link :: "string \<Rightarrow> (string \<times> string) list \<Rightarrow> bool" where
  "stylesheet_link tag a \<longleftrightarrow> tag = ''link'' \<and> rel_has_word a ''stylesheet''"

definition preload_style_link :: "string \<Rightarrow> (string \<times> string) list \<Rightarrow> bool" where
  "preload_style_link tag a \<longleftrightarrow> tag = ''link'' \<and> rel_is a ''preload'' \<and> as_is a ''style''"

text \<open>\<^verbatim>\<open>img[src], video[src], audio[src], source[src]\<close>\<close>

definition media_src :: "string \<Rightarrow> (string \<times> string) list \<Rightarrow> bool" where
  "media_src tag a \<longleftrightarrow> tag \<in> set [''img'', ''video'', ''audio'', ''source''] \<and> has_attr a ''src''"

text \<open>\<^verbatim>\<open>link[rel*="icon"][href], link[rel="apple-touch-icon"][href], link[as="image"][href],
  link[rel="manifest"][href]\<close>\<close>

definition icon_link :: "string \<Rightarrow> (string \<times> string) list \<Rightarrow> bool" where
  "icon_link tag a \<longleftrightarrow>
     tag = ''link'' \<and> has_attr a ''href'' \<and>
     (rel_contains a ''icon'' \<or> rel_is a ''apple-touch-icon'' \<or> as_is a ''image'' \<or>
      rel_is a ''manifest'')"

text \<open>The selector of the first pass of \<open>collectHtmlAssetUrls\<close>.\<close>

definition standard_asset :: "string \<Rightarrow> (string \<times> string) list \<Rightarrow> bool" where
  "standard_asset tag a \<longleftrightarrow>
     media_src tag a \<or> (tag = ''script'' \<and> has_attr a ''src'') \<or> icon_link tag a"

text \<open>\<^verbatim>\<open>$(selector)\<close>: the elements that match, in document order.\<close>

fun matches :: "(string \<Rightarrow> (string \<times> string) list \<Rightarrow> bool) \<Rightarrow> node \<Rightarrow> bool" where
  "matches sel (Element tag a cs) = sel tag a"
| "matches sel (Text t) = False"

definition select :: "(string \<Rightarrow> (string \<times> string) list \<Rightarrow> bool) \<Rightarrow> node list \<Rightarrow> node list" where
  "select sel doc = filter (matches sel) (all_elems doc)"

fun attrs_of :: "node \<Rightarrow> (string \<times> string) list" where
  "attrs_of (Element tag a cs) = a"
| "attrs_of (Text t) = []"

fun children_of :: "node \<Rightarrow> node list" where
  "children_of (Element tag a cs) = cs"
| "children_of (Text t) = []"

section \<open>Style collector and asset discoverer\<close>

text \<open>
  \<^verbatim>\<open>
  function extractStyles(html, baseUrl) {
    const $ = load(html);
    const links = new Set();
    $('link[rel~="stylesheet"][href], link[rel="preload"][as="style"][href]').each((_,el)=>{
      const raw = $(el).attr('href'); if (!raw) return;
      try { links.add(new URL(raw, baseUrl).toString()); } catch {}
    });
    const inline = [];
    $('style').each((_,el)=>{ const css = $(el).html() || ''; if (css.trim()) inline.push(css); });
    return { stylesheetUrls: Array.from(links), inlineCssBlocks: inline };
  }
  \<close>
\<close>

definition collected_as_stylesheet :: "string \<Rightarrow> (string \<times> string) list \<Rightarrow> bool" where
  "collected_as_stylesheet tag a \<longleftrightarrow>
     (stylesheet_link tag a \<or> preload_style_link tag a) \<and> has_attr a ''href''"

fun add_stylesheet_links :: "lib \<Rightarrow> string \<Rightarrow> node list \<Rightarrow> string list \<Rightarrow> string list" where
  "add_stylesheet_links L baseUrl [] links = links"
| "add_stylesheet_links L baseUrl (el # els) links =
     (let raw = attr (attrs_of el) ''href''
      in if \<not> truthy raw then add_stylesheet_links L baseUrl els links
         else (case url_resolve L (js_string raw) baseUrl of
                 Some u \<Rightarrow> add_stylesheet_links L baseUrl els (set_add links u)
               | None \<Rightarrow> add_stylesheet_links L baseUrl els links))"

definition extractStyles :: "cheerio \<Rightarrow> lib \<Rightarrow> string \<Rightarrow> string \<Rightarrow> string list \<times> string list" where
  "extractStyles C L html baseUrl =
     (let doc = cheerio_load C html;
          links = add_stylesheet_links L baseUrl (select collected_as_stylesheet doc) [];
          inline = filter (\<lambda>css. trim css \<noteq> [])
                     (map (\<lambda>el. cheerio_html C (children_of el)) (select (\<lambda>tag a. tag = ''style'') doc))
      in (links, inline))"

text \<open>
  \<^verbatim>\<open>const addAbs = u => { try { assets.add(new URL(u, baseUrl).toString()); } catch {} };\<close>
\<close>

definition addAbs :: "lib \<Rightarrow> string \<Rightarrow> string list \<Rightarrow> string option \<Rightarrow> string list" where
  "addAbs L baseUrl assets u =
     (case url_resolve L (js_string u) baseUrl of
        Some a \<Rightarrow> set_add assets a
      | None \<Rightarrow> assets)"

text \<open>\<^verbatim>\<open>s.split(',')\<close>, and \<^verbatim>\<open>item.trim().split(/\s+/)[0]\<close>: the first word of an item.\<close>

definition split_commas :: "string \<Rightarrow> string list" where
  "split_commas s = split_where (\<lambda>c. c = CHR '','') s"

definition first_word :: "string \<Rightarrow> string" where
  "first_word item = takeWhile (\<lambda>c. \<not> is_space c) (trim item)"

text \<open>\<^verbatim>\<open>s.split(',').forEach(item => { const u = item.trim().split(/\s+/)[0]; if (u) addAbs(u); })\<close>\<close>

definition add_srcset :: "lib \<Rightarrow> string \<Rightarrow> string list \<Rightarrow> string \<Rightarrow> string list" where
  "add_srcset L baseUrl assets s =
     fold (\<lambda>item acc. if first_word item = [] then acc else addAbs L baseUrl acc (Some (first_word item)))
          (split_commas s) assets"

text \<open>The callback of the inline style pass, over the pieces of the scan: every
  reference that is not \<^verbatim>\<open>data:\<close>, \<^verbatim>\<open>#\<close> or \<^verbatim>\<open>blob:\<close> is added.\<close>

fun add_style_urls :: "lib \<Rightarrow> string \<Rightarrow> string list \<Rightarrow> piece list \<Rightarrow> string list" where
  "add_style_urls L baseUrl assets [] = assets"
| "add_style_urls L baseUrl assets (Skipped x # ps) = add_style_urls L baseUrl assets ps"
| "add_style_urls L baseUrl assets (Match m c # ps) =
     (if not_fetchable (reference c) then add_style_urls L baseUrl assets ps
      else add_style_urls L baseUrl (addAbs L baseUrl assets (Some (reference c))) ps)"

text \<open>
  \<^verbatim>\<open>
  function parseNoscriptAssets($, baseUrl, addAbs) {
    $('noscript').each((_, el) => {
      const html = $(el).html();
      if (!html) return;
      const _$ = load(html);
      _$('img[src], source[src]').each((__, n) => {
        const u = _$(n).attr('src'); if (u) { try { addAbs(new URL(u, baseUrl).toString()); } catch {} }
      });
      _$$('[srcset]').each((__, n) => {
        const s = _$(n).attr('srcset'); if (!s) return;
        s.split(',').forEach(item => {
          const u = item.trim().split(/\s+/)[0];
          if (u) { try { addAbs(new URL(u, baseUrl).toString()); } catch {} }
        });
      });
    });
  }
  \<close>
  The identifier \<^verbatim>\<open>_$$\<close> is declared nowhere in the module. Evaluating it throws a
  \<^verbatim>\<open>ReferenceError\<close>, which nothing catches: the callback, \<^verbatim>\<open>each\<close>, this function and
  \<open>collectHtmlAssetUrls\<close> all end there. The statement is reached for every
  \<^verbatim>\<open>noscript\<close> element whose inner HTML is not empty, after its \<^verbatim>\<open>src\<close> attributes have been
  added.
\<close>

definition add_noscript_src :: "lib \<Rightarrow> string \<Rightarrow> string list \<Rightarrow> node \<Rightarrow> string list" where
  "add_noscript_src L baseUrl assets n =
     (let u = attr (attrs_of n) ''src''
      in if \<not> truthy u then assets
         else (case url_resolve L (js_string u) baseUrl of
                 Some a \<Rightarrow> addAbs L baseUrl assets (Some a)
               | None \<Rightarrow> assets))"

fun parseNoscriptAssets ::
  "cheerio \<Rightarrow> lib \<Rightarrow> string \<Rightarrow> node list \<Rightarrow> string list \<Rightarrow> error + string list" where
  "parseNoscriptAssets C L baseUrl [] assets = Inr assets"
| "parseNoscriptAssets C L baseUrl (el # els) assets =
     (let html = cheerio_html C (children_of el)
      in if html = [] then parseNoscriptAssets C L baseUrl els assets
         else (let fragment = cheerio_load C html;
                   assets' = fold (\<lambda>n acc. add_noscript_src L baseUrl acc n)
                               (select (\<lambda>tag a. tag \<in> set [''img'', ''source''] \<and> has_attr a ''src'') fragment)
                               assets
               in Inl (ReferenceError ''_$$'')))"

text \<open>
  \<^verbatim>\<open>
  function collectHtmlAssetUrls(html, baseUrl) {
    const $ = load(html);
    const assets = new Set();
    const addAbs = u => { try { assets.add(new URL(u, baseUrl).toString()); } catch {} };
    $('img[src], video[src], audio[src], source[src], script[src], link[rel*="icon"][href], link[rel="apple-touch-icon"][href], link[as="image"][href], link[rel="manifest"][href]')
      .each((_,el)=> addAbs($(el).attr('src') || $(el).attr('href')));
    $('[srcset]').each((_, el) => {
      const s = $(el).attr('srcset'); if (!s) return;
      s.split(',').forEach(item => { const u = item.trim().split(/\s+/)[0]; if (u) addAbs(u); });
    });
    $('[data-src], [data-original], [data-lazy], [data-srcset]').each((_, el) => {
      const ds = $(el).attr('data-src') || $(el).attr('data-original') || $(el).attr('data-lazy');
      if (ds) addAbs(ds);
      const dss = $(el).attr('data-srcset');
      if (dss) dss.split(',').forEach(item => { const u = item.trim().split(/\s+/)[0]; if (u) addAbs(u); });
    });
    $('[style]').each((_, el) => {
      const style = $(el).attr('style') || '';
      style.replace(CSS_URL_RE, (m,q,p)=>{ const v=(p||'').trim(); if (/^(data:|#|blob:)/i.test(v)) return m; addAbs(v); return m; });
    });
    parseNoscriptAssets($, baseUrl, addAbs);
    return { $, assetUrls: Array.from(assets) };
  }
  \<close>
\<close>

definition add_standard :: "lib \<Rightarrow> string \<Rightarrow> string list \<Rightarrow> node \<Rightarrow> string list" where
  "add_standard L baseUrl assets el =
     addAbs L baseUrl assets (js_or (attr (attrs_of el) ''src'') (attr (attrs_of el) ''href''))"

definition add_srcset_attr :: "lib \<Rightarrow> string \<Rightarrow> string \<Rightarrow> string list \<Rightarrow> node \<Rightarrow> string list" where
  "add_srcset_attr L baseUrl name assets el =
     (let s = attr (attrs_of el) name
      in if \<not> truthy s then assets else add_srcset L baseUrl assets (js_string s))"

definition add_lazy :: "lib \<Rightarrow> string \<Rightarrow> string list \<Rightarrow> node \<Rightarrow> string list" where
  "add_lazy L baseUrl assets el =
     (let a = attrs_of el;
          ds = js_or (js_or (attr a ''data-src'') (attr a ''data-original'')) (attr a ''data-lazy'');
          assets1 = (if truthy ds then addAbs L baseUrl assets ds else assets)
      in add_srcset_attr L baseUrl ''data-srcset'' assets1 el)"

definition add_inline_style :: "lib \<Rightarrow> string \<Rightarrow> string list \<Rightarrow> node \<Rightarrow> string list" where
  "add_inline_style L baseUrl assets el =
     add_style_urls L baseUrl assets (scan CSS_URL_RE (or_else (attr (attrs_of el) ''style'') []))"

definition html_assets_before_noscript :: "lib \<Rightarrow> string \<Rightarrow> node list \<Rightarrow> string list" where
  "html_assets_before_noscript L baseUrl doc =
     (let a1 = fold (\<lambda>el acc. add_standard L baseUrl acc el) (select standard_asset doc) [];
          a2 = fold (\<lambda>el acc. add_srcset_attr L baseUrl ''srcset'' acc el)
                 (select (\<lambda>tag a. has_attr a ''srcset'') doc) a1;
          a3 = fold (\<lambda>el acc. add_lazy L baseUrl acc el)
                 (select (\<lambda>tag a. has_attr a ''data-src'' \<or> has_attr a ''data-original'' \<or>
                                   has_attr a ''data-lazy'' \<or> has_attr a ''data-srcset'') doc) a2
      in fold (\<lambda>el acc. add_inline_style L baseUrl acc el)
           (select (\<lambda>tag a. has_attr a ''style'') doc) a3)"

definition collectHtmlAssetUrls ::
  "cheerio \<Rightarrow> lib \<Rightarrow> string \<Rightarrow> string \<Rightarrow> error + node list \<times> string list" where
  "collectHtmlAssetUrls C L html baseUrl =
     (let doc = cheerio_load C html;
          assets = html_assets_before_noscript L baseUrl doc
      in case parseNoscriptAssets C L baseUrl (select (\<lambda>tag a. tag = ''noscript'') doc) assets of
           Inl e \<Rightarrow> Inl e
         | Inr assets' \<Rightarrow> Inr (doc, assets'))"

text \<open>
  A page for the worked examples, as \<^verbatim>\<open>load\<close> parses it. Its head holds a stylesheet
  link, a link that preloads a stylesheet, and a style element; its body an image and a
  \<^verbatim>\<open>noscript\<close> element whose content, with scripting enabled, is text.
\<close>

definition page_html :: string where
  "page_html =
     ''<html><head><link rel=stylesheet href=c0.css><link rel=preload as=style href=a.css>'' @
     ''<style>p{}</style></head><body><img src=a.png><noscript><img src=b.png></noscript></body></html>''"

definition page_doc :: "node list" where
  "page_doc =
     [Element ''html'' []
        [Element ''head'' []
           [Element ''link'' [(''rel'', ''stylesheet''), (''href'', ''c0.css'')] [],
            Element ''link'' [(''rel'', ''preload''), (''as'', ''style''), (''href'', ''a.css'')] [],
            Element ''style'' [] [Text ''p{}'']],
         Element ''body'' []
           [Element ''img'' [(''src'', ''a.png'')] [],
            Element ''noscript'' [] [Text ''<img src=b.png>'']]]]"

definition noscript_doc :: "node list" where
  "noscript_doc =
     [Element ''html'' []
        [Element ''head'' [] [],
         Element ''body'' [] [Element ''img'' [(''src'', ''b.png'')] []]]]"

text \<open>The same page without the \<^verbatim>\<open>noscript\<close> element.\<close>

definition plain_html :: string where
  "plain_html =
     ''<html><head><link rel=stylesheet href=c0.css><link rel=preload as=style href=a.css>'' @
     ''<style>p{}</style></head><body><img src=a.png></body></html>''"

definition plain_doc :: "node list" where
  "plain_doc =
     [Element ''html'' []
        [Element ''head'' []
           [Element ''link'' [(''rel'', ''stylesheet''), (''href'', ''c0.css'')] [],
            Element ''link'' [(''rel'', ''preload''), (''as'', ''style''), (''href'', ''a.css'')] [],
            Element ''style'' [] [Text ''p{}'']],
         Element ''body'' [] [Element ''img'' [(''src'', ''a.png'')] []]]]"

text \<open>The parser and the serialiser at these arguments: the inner HTML of an element
  whose children are text is that text.\<close>

fun text_of :: "node list \<Rightarrow> string" where
  "text_of [] = []"
| "text_of (Text t # ns) = t @ text_of ns"
| "text_of (Element tag a cs # ns) = text_of ns"

definition page_cheerio :: cheerio where
  "page_cheerio =
     \<lparr>cheerio_load = (\<lambda>html. if html = page_html then page_doc
                              else if html = plain_html then plain_doc
                              else if html = ''<img src=b.png>'' then noscript_doc
                              else []),
      cheerio_html = text_of,
      cheerio_fragment = (\<lambda>markup. if markup = link_markup then [style_link] else [])\<rparr>"

text \<open>URL resolution for the page, whose base is \<^verbatim>\<open>https://x.test/p\<close>.\<close>

definition page_resolve :: "string \<Rightarrow> string \<Rightarrow> string option" where
  "page_resolve rel base =
     (if base \<noteq> ''https://x.test/p'' then None
      else if rel \<in> set [''a.png'', ''b.png'', ''a.css'', ''c0.css''] then Some (''https://x.test/'' @ rel)
      else if rel \<in> set [''https://x.test/a.png'', ''https://x.test/b.png''] then Some rel
      else None)"

definition page_lib :: lib where
  "page_lib = example_lib\<lparr>url_resolve := page_resolve\<rparr>"

section \<open>Reference rewriter for HTML\<close>

text \<open>
  \<^verbatim>\<open>
  function rewriteHtmlReferencesToLocal($, baseUrl, urlToLocalRel) {
    const setLocal = (el, attr) => {
      const v = $(el).attr(attr); if (!v) return;
      try { const abs = new URL(v, baseUrl).toString(); const loc = urlToLocalRel.get(abs); if (loc) $(el).attr(attr, loc); } catch {}
    };
    $('img[src], video[src], audio[src], source[src]').each((_, el) => setLocal(el, 'src'));
    $('script[src]').each((_, el) => setLocal(el, 'src'));
    $('link[rel*="icon"][href], link[rel="apple-touch-icon"][href], link[as="image"][href], link[rel="manifest"][href]').each((_, el) => setLocal(el, 'href'));
    $('[data-src], [data-original], [data-lazy]').each((_, el) => {
      const raw = $(el).attr('data-src') || $(el).attr('data-original') || $(el).attr('data-lazy');
      try {
        const abs = new URL(raw, baseUrl).toString();
        const loc = urlToLocalRel.get(abs);
        if (loc && !$(el).attr('src')) $(el).attr('src', loc);
      } catch {}
    });
    const rewriteSrcset = (selector, attr) => {
      $(selector).each((_, el) => {
        const old = $(el).attr(attr); if (!old) return;
        const rew = old.split(',').map(item => {
          const [u, d] = item.trim().split(/\s+/, 2);
          let out = u;
          try { const abs = new URL(u, baseUrl).toString(); const loc = urlToLocalRel.get(abs); if (loc) out = loc; } catch {}
          return d ? `${out} ${d}` : out;
        }).join(', ');
        $(el).attr(attr, rew);
      });
    };
    rewriteSrcset('[srcset]', 'srcset');
    rewriteSrcset('[data-srcset]', 'data-srcset');
    $('[style]').each((_, el) => {
      const style = $(el).attr('style') || '';
      const rew = style.replace(CSS_URL_RE, (m,q,p) => {
        const v = (p||'').trim(); if (/^(data:|#|blob:)/i.test(v)) return m;
        try { const abs = new URL(v, baseUrl).toString(); const loc = urlToLocalRel.get(abs); if (loc) return `url(${loc})`; } catch {}
        return m;
      });
      $(el).attr('style', rew);
    });
    $('link[rel~="stylesheet"]').remove();
    $('style').remove();
    if ($('head').length === 0) $('html').prepend('<head></head>');
    $('head').append('<link rel="stylesheet" href="style.css">');
    return $.html();
  }
  \<close>
  Every \<^verbatim>\<open>each\<close> changes attributes of the selected elements only, and what it does to
  an element depends on that element alone: a pass is a map over the elements of the
  tree. The map \<^verbatim>\<open>urlToLocalRel\<close> is the list built by the saving loop.
\<close>

fun map_attrs :: "(string \<Rightarrow> (string \<times> string) list \<Rightarrow> (string \<times> string) list) \<Rightarrow> node \<Rightarrow> node" where
  "map_attrs f (Text t) = Text t"
| "map_attrs f (Element tag a cs) = Element tag (f tag a) (map (map_attrs f) cs)"

text \<open>\<^verbatim>\<open>urlToLocalRel.get(abs)\<close> when it is truthy.\<close>

definition local_for :: "lib \<Rightarrow> string \<Rightarrow> (string \<times> string) list \<Rightarrow> string option \<Rightarrow> string option" where
  "local_for L baseUrl m v =
     (case url_resolve L (js_string v) baseUrl of
        None \<Rightarrow> None
      | Some u \<Rightarrow> (case map_of m u of None \<Rightarrow> None | Some loc \<Rightarrow> if loc = [] then None else Some loc))"

definition setLocal ::
  "lib \<Rightarrow> string \<Rightarrow> (string \<times> string) list \<Rightarrow> string \<Rightarrow> (string \<times> string) list \<Rightarrow> (string \<times> string) list" where
  "setLocal L baseUrl m name a =
     (if \<not> truthy (attr a name) then a
      else (case local_for L baseUrl m (attr a name) of
              None \<Rightarrow> a
            | Some loc \<Rightarrow> map_set a name loc))"

definition adopt_lazy ::
  "lib \<Rightarrow> string \<Rightarrow> (string \<times> string) list \<Rightarrow> (string \<times> string) list \<Rightarrow> (string \<times> string) list" where
  "adopt_lazy L baseUrl m a =
     (let raw = js_or (js_or (attr a ''data-src'') (attr a ''data-original'')) (attr a ''data-lazy'')
      in case local_for L baseUrl m raw of
           None \<Rightarrow> a
         | Some loc \<Rightarrow> if truthy (attr a ''src'') then a else map_set a ''src'' loc)"

text \<open>One candidate of a \<^verbatim>\<open>srcset\<close>: its first two words are the URL and the descriptor.\<close>

definition rewrite_candidate :: "lib \<Rightarrow> string \<Rightarrow> (string \<times> string) list \<Rightarrow> string \<Rightarrow> string" where
  "rewrite_candidate L baseUrl m item =
     (let ws = words (trim item);
          u = (case ws of [] \<Rightarrow> [] | w # _ \<Rightarrow> w);
          res = (case local_for L baseUrl m (Some u) of None \<Rightarrow> u | Some loc \<Rightarrow> loc)
      in case ws of
           _ # d # _ \<Rightarrow> res @ '' '' @ d
         | _ \<Rightarrow> res)"

fun join_with :: "string \<Rightarrow> string list \<Rightarrow> string" where
  "join_with sep [] = []"
| "join_with sep [x] = x"
| "join_with sep (x # xs) = x @ sep @ join_with sep xs"

definition rewriteSrcset ::
  "lib \<Rightarrow> string \<Rightarrow> (string \<times> string) list \<Rightarrow> string \<Rightarrow> (string \<times> string) list \<Rightarrow> (string \<times> string) list" where
  "rewriteSrcset L baseUrl m name a =
     (if \<not> truthy (attr a name) then a
      else map_set a name
             (join_with '', '' (map (rewrite_candidate L baseUrl m) (split_commas (js_string (attr a name))))))"

definition style_token_local :: "lib \<Rightarrow> string \<Rightarrow> (string \<times> string) list \<Rightarrow> piece \<Rightarrow> string" where
  "style_token_local L baseUrl m p =
     (case p of
        Skipped x \<Rightarrow> [x]
      | Match t c \<Rightarrow>
          if not_fetchable (reference c) then t
          else (case local_for L baseUrl m (Some (reference c)) of
                  None \<Rightarrow> t
                | Some loc \<Rightarrow> ''url('' @ loc @ '')''))"

definition rewrite_style ::
  "lib \<Rightarrow> string \<Rightarrow> (string \<times> string) list \<Rightarrow> (string \<times> string) list \<Rightarrow> (string \<times> string) list" where
  "rewrite_style L baseUrl m a =
     map_set a ''style''
       (concat (map (style_token_local L baseUrl m) (scan CSS_URL_RE (or_else (attr a ''style'') []))))"

text \<open>The seven attribute passes, in the order of the source.\<close>

definition attr_passes ::
  "lib \<Rightarrow> string \<Rightarrow> (string \<times> string) list \<Rightarrow> (string \<Rightarrow> (string \<times> string) list \<Rightarrow> (string \<times> string) list) list" where
  "attr_passes L baseUrl m =
     [\<lambda>tag a. if media_src tag a then setLocal L baseUrl m ''src'' a else a,
      \<lambda>tag a. if tag = ''script'' \<and> has_attr a ''src'' then setLocal L baseUrl m ''src'' a else a,
      \<lambda>tag a. if icon_link tag a then setLocal L baseUrl m ''href'' a else a,
      \<lambda>tag a. if has_attr a ''data-src'' \<or> has_attr a ''data-original'' \<or> has_attr a ''data-lazy''
               then adopt_lazy L baseUrl m a else a,
      \<lambda>tag a. if has_attr a ''srcset'' then rewriteSrcset L baseUrl m ''srcset'' a else a,
      \<lambda>tag a. if has_attr a ''data-srcset'' then rewriteSrcset L baseUrl m ''data-srcset'' a else a,
      \<lambda>tag a. if has_attr a ''style'' then rewrite_style L baseUrl m a else a]"

text \<open>\<^verbatim>\<open>$(selector).remove()\<close> takes the selected elements out of the tree, with all they
  contain.\<close>

fun prune :: "(string \<Rightarrow> (string \<times> string) list \<Rightarrow> bool) \<Rightarrow> node \<Rightarrow> node list" where
  "prune sel (Text t) = [Text t]"
| "prune sel (Element tag a cs) =
     (if sel tag a then [] else [Element tag a (concat (map (prune sel) cs))])"

definition remove_all :: "(string \<Rightarrow> (string \<times> string) list \<Rightarrow> bool) \<Rightarrow> node list \<Rightarrow> node list" where
  "remove_all sel doc = concat (map (prune sel) doc)"

text \<open>\<^verbatim>\<open>$(selector).prepend(nodes)\<close> and \<^verbatim>\<open>$(selector).append(nodes)\<close> put a copy of the nodes
  before or after the children of every selected element.\<close>

fun map_children ::
  "(string \<Rightarrow> (string \<times> string) list \<Rightarrow> bool) \<Rightarrow> (node list \<Rightarrow> node list) \<Rightarrow> node \<Rightarrow> node" where
  "map_children sel f (Text t) = Text t"
| "map_children sel f (Element tag a cs) =
     Element tag a (if sel tag a then f (map (map_children sel f) cs)
                    else map (map_children sel f) cs)"

definition is_head :: "string \<Rightarrow> (string \<times> string) list \<Rightarrow> bool" where
  "is_head tag a \<longleftrightarrow> tag = ''head''"

definition is_style :: "string \<Rightarrow> (string \<times> string) list \<Rightarrow> bool" where
  "is_style tag a \<longleftrightarrow> tag = ''style''"

definition refresh_styles :: "cheerio \<Rightarrow> node list \<Rightarrow> node list" where
  "refresh_styles C doc =
     (let d1 = remove_all stylesheet_link doc;
          d2 = remove_all is_style d1;
          d3 = (if select is_head d2 = []
                then map (map_children (\<lambda>tag a. tag = ''html'')
                            (\<lambda>cs. cheerio_fragment C ''<head></head>'' @ cs)) d2
                else d2)
      in map (map_children is_head (\<lambda>cs. cs @ cheerio_fragment C link_markup)) d3)"

definition rewrite_dom ::
  "cheerio \<Rightarrow> lib \<Rightarrow> node list \<Rightarrow> string \<Rightarrow> (string \<times> string) list \<Rightarrow> node list" where
  "rewrite_dom C L doc baseUrl m =
     refresh_styles C (fold (\<lambda>f d. map (map_attrs f) d) (attr_passes L baseUrl m) doc)"

definition rewriteHtmlReferencesToLocal ::
  "cheerio \<Rightarrow> lib \<Rightarrow> node list \<Rightarrow> string \<Rightarrow> (string \<times> string) list \<Rightarrow> string" where
  "rewriteHtmlReferencesToLocal C L doc baseUrl m = cheerio_html C (rewrite_dom C L doc baseUrl m)"

text \<open>In a parsed document a \<^verbatim>\<open>link\<close> element is void and a \<^verbatim>\<open>style\<close> element holds
  text: neither contains an element.\<close>

definition styles_are_leaves :: "node list \<Rightarrow> bool" where
  "styles_are_leaves doc \<longleftrightarrow>
     (\<forall>e \<in> set (all_elems doc).
        matches (\<lambda>tag a. tag = ''link'' \<or> tag = ''style'') e \<longrightarrow> all_elems (children_of e) = [])"

section \<open>Discovery phase of the run\<close>

text \<open>
  Steps 1 to 3 of \<^verbatim>\<open>main\<close>, from the normalised URL:
  \<^verbatim>\<open>
  try { page = await fetchHTML(url, client); ... } catch (e) { ...; process.exit(1); }
  const { stylesheetUrls, inlineCssBlocks } = extractStyles(page.html, page.finalUrl);
  const inlineTagged = inlineCssBlocks.map(css => ({ css, baseUrl: page.finalUrl }));
  const { $, assetUrls: htmlAssetUrls } = collectHtmlAssetUrls(page.html, page.finalUrl);
  \<close>
  The result is \<^verbatim>\<open>stylesheetUrls\<close>, \<^verbatim>\<open>inlineTagged\<close>, the parsed document and
  \<^verbatim>\<open>htmlAssetUrls\<close>.
\<close>

definition discover ::
  "cheerio \<Rightarrow> lib \<Rightarrow> client \<Rightarrow> string \<Rightarrow>
     error + string list \<times> (string \<times> string) list \<times> node list \<times> string list" where
  "discover C L get url =
     (case fetchHTML get url of
        Inl e \<Rightarrow> Inl e
      | Inr page \<Rightarrow>
          let (stylesheetUrls, inlineCssBlocks) = extractStyles C L (payload page) (finalUrl page);
              inlineTagged = map (\<lambda>css. (css, finalUrl page)) inlineCssBlocks
          in case collectHtmlAssetUrls C L (payload page) (finalUrl page) of
               Inl e \<Rightarrow> Inl e
             | Inr (doc, htmlAssetUrls) \<Rightarrow> Inr (stylesheetUrls, inlineTagged, doc, htmlAssetUrls))"

text \<open>The example page without \<^verbatim>\<open>noscript\<close>, served after a redirect from
  \<^verbatim>\<open>http://x.test/p\<close> to \<^verbatim>\<open>https://x.test/p\<close>.\<close>

definition redirected_page :: response where
  "redirected_page = \<lparr>status = 200, body = plain_html, responseUrl = Some ''https://x.test/p'',
                       contentTypeHeader = Some ''text/html''\<rparr>"

text \<open>Two results of a run in which the page references the same logo by an http and by
  an https URL, the first redirected to the second, both answered with the same image.\<close>

definition duplicate_results :: "outcome option list" where
  "duplicate_results =
     [Some (Ok ''http://x.test/logo'' ''https://x.test/logo'' ''image/png'' ''PNG''),
      Some (Ok ''https://x.test/logo'' ''https://x.test/logo'' ''image/png'' ''PNG'')]"

definition duplicate_saved :: saving where
  "duplicate_saved =
     \<lparr>urlToLocalRel =
        [(''https://x.test/logo'', ''assets/img/logo-8f97bfe5.png''),
         (''http://x.test/logo'', ''assets/img/logo-8f97bfe5.png'')],
      saved = 2, failed = 0,
      files = [(''assets/img/logo-8f97bfe5.png'', ''PNG''),
               (''assets/img/logo-8f97bfe5.png'', ''PNG'')]\<rparr>"

text \<open>
  The finished tasks of a call of \<open>inlineCssImports\<close>: what \<^verbatim>\<open>await Promise.all(tasks)\<close>
  waits for, as a tree. A \<open>Loaded\<close> task holds the tasks of its nested call.
\<close>

definition import_tree ::
  "lib \<Rightarrow> client \<Rightarrow> (nat \<Rightarrow> nat) \<Rightarrow> string \<Rightarrow> string \<Rightarrow> nat \<Rightarrow> css_state \<Rightarrow> task list" where
  "import_tree L get sched css cssUrl depth st =
     (let (tasks, fallbacks, st1) = start_call L css cssUrl depth st
      in fst (run_tasks L get sched tasks st1))"

text \<open>
  A task of a call with depth \<open>n\<close> stays within the depth bound: the call has a task only
  when \<open>n\<close> is positive; a pending task carries the depth \<open>n - 1\<close> of its nested call; a
  loaded task whose nested call had depth 0 has neither tasks nor fallbacks of its own,
  so nothing is replaced in its text; the tasks of any other loaded task are tasks of a
  call with depth \<open>n - 1\<close>.
\<close>

fun within :: "nat \<Rightarrow> task \<Rightarrow> bool"
  and within_all :: "nat \<Rightarrow> task list \<Rightarrow> bool" where
  "within n (Pending raw absUrl d) = (n = Suc d)"
| "within n (Failed raw absUrl e) = (0 < n)"
| "within n (Loaded raw final css tasks fallbacks) =
     (0 < n \<and> (if n = 1 then tasks = [] \<and> fallbacks = [] else within_all (n - 1) tasks))"
| "within_all n [] = True"
| "within_all n (t # ts) = (within n t \<and> within_all n ts)"

text \<open>The chain of three imports again, where the text of \<^verbatim>\<open>c2.css\<close> holds the characters
  \<^verbatim>\<open>$&\<close>.\<close>

definition dollar_net :: client where
  "dollar_net u =
     (if u = ''https://x.test/c2.css''
      then Inr \<lparr>status = 200, body = ''@import url(c3.css); $& .c2{}'', responseUrl = Some u,
                contentTypeHeader = Some ''text/css''\<rparr>
      else style_net u)"

definition dollar_chain_css :: string where
  "dollar_chain_css =
     ''/* ===== CSS from https://x.test/c0.css ===== */'' @ [newline] @
     ''/* @import inlined from https://x.test/c1.css */'' @ [newline] @
     ''/* @import inlined from https://x.test/c2.css */'' @ [newline] @
     ''@import url(https://x.test/c3.css); @import url(https://x.test/c2.css); .c2{}'' @ [newline] @
     ''/* end import */ .c1{}'' @ [newline] @
     ''/* end import */ .c0{}'' @ [newline]"

section \<open>Properties of the page fetcher\<close>

lemma fetchHTML_Inr:
  assumes "get url = Inr res"
  shows "fetchHTML get url =
     (if status res < 200 \<or> status res \<ge> 300 then Inl (NonOkStatus (status res) url)
      else if body res = [] then Inl (EmptyHtml (or_else (responseUrl res) url))
      else Inr \<lparr>payload = body res, finalUrl = or_else (responseUrl res) url,
                 contentType = or_else (contentTypeHeader res) []\<rparr>)"
  using assms by (simp add: fetchHTML_def Let_def)

text \<open>
  C9, as stated, fails: a response with status 299 and a non-empty body is outside
  [200,299), yet \<open>fetchHTML\<close> returns the page.
\<close>

theorem fetchHTML_status_299_counterexample:
  "spec_fetchHtml_fails res299 \<and>
   fetchHTML (\<lambda>u. Inr res299) ''http://x.test/p'' =
     Inr \<lparr>payload = ''<p>hi</p>'', finalUrl = ''https://x.test/p'', contentType = ''text/html''\<rparr>"
  by (simp add: spec_fetchHtml_fails_def res299_def fetchHTML_def)

text \<open>
  C9, amended: once the request has produced a response, \<open>fetchHTML\<close> throws exactly when
  the status is below 200 or at least 300, or the body is empty; when it returns, the
  final URL is the response URL reached after redirects (the requested URL when the
  response carries none) and the body is returned unchanged. That final URL, not the
  requested one, is the base \<^verbatim>\<open>main\<close> passes to the style collector and to the asset
  discoverer and attaches to every inline style block.
\<close>

theorem fetchHTML_fails_iff:
  assumes "get url = Inr res"
  shows "((\<exists>e. fetchHTML get url = Inl e) \<longleftrightarrow>
            status res < 200 \<or> 300 \<le> status res \<or> body res = []) \<and>
         (\<forall>p. fetchHTML get url = Inr p \<longrightarrow>
            finalUrl p = or_else (responseUrl res) url \<and> payload p = body res \<and>
            discover C L get url =
              (case collectHtmlAssetUrls C L (body res) (or_else (responseUrl res) url) of
                 Inl e \<Rightarrow> Inl e
               | Inr (doc, htmlAssetUrls) \<Rightarrow>
                   Inr (fst (extractStyles C L (body res) (or_else (responseUrl res) url)),
                        map (\<lambda>css. (css, or_else (responseUrl res) url))
                          (snd (extractStyles C L (body res) (or_else (responseUrl res) url))),
                        doc, htmlAssetUrls)))"
  using assms
  by (auto simp: fetchHTML_Inr discover_def Let_def case_prod_unfold split: sum.splits)

theorem fetchHTML_fails_iff_witness:
  "(\<lambda>u. Inr redirected_page) ''http://x.test/p'' = Inr redirected_page \<and>
   \<not> (\<exists>e. fetchHTML (\<lambda>u. Inr redirected_page) ''http://x.test/p'' = Inl e) \<and>
   fetchHTML (\<lambda>u. Inr redirected_page) ''http://x.test/p''
     = Inr \<lparr>payload = plain_html, finalUrl = ''https://x.test/p'', contentType = ''text/html''\<rparr> \<and>
   discover page_cheerio page_lib (\<lambda>u. Inr redirected_page) ''http://x.test/p''
     = Inr ([''https://x.test/c0.css'', ''https://x.test/a.css''],
            [(''p{}'', ''https://x.test/p'')], plain_doc, [''https://x.test/a.png''])"
proof -
  have f: "fetchHTML (\<lambda>u. Inr redirected_page) ''http://x.test/p''
     = Inr \<lparr>payload = plain_html, finalUrl = ''https://x.test/p'', contentType = ''text/html''\<rparr>"
    by (simp add: fetchHTML_def redirected_page_def plain_html_def)
  have c: "collectHtmlAssetUrls page_cheerio page_lib plain_html ''https://x.test/p''
     = Inr (plain_doc, [''https://x.test/a.png''])"
    by code_simp
  have e: "extractStyles page_cheerio page_lib plain_html ''https://x.test/p''
     = ([''https://x.test/c0.css'', ''https://x.test/a.css''], [''p{}''])"
    by code_simp
  have r: "body redirected_page = plain_html"
    "or_else (responseUrl redirected_page) ''http://x.test/p'' = ''https://x.test/p''"
    by (simp_all add: redirected_page_def)
  show ?thesis
    using fetchHTML_fails_iff [of "\<lambda>u. Inr redirected_page" "''http://x.test/p''" redirected_page
        page_cheerio page_lib]
    by (simp add: f c e r)
qed

section \<open>Properties of the concurrent downloader\<close>

lemma distinct_drop_one:
  assumes "distinct xs" "k < length xs"
  shows "distinct (take k xs @ drop (Suc k) xs)"
proof -
  have "xs = take k xs @ xs ! k # drop (Suc k) xs"
    using assms(2) by (simp add: id_take_nth_drop)
  then have "distinct (take k xs @ xs ! k # drop (Suc k) xs)"
    using assms(1) by simp
  then show ?thesis by simp
qed

lemma set_drop_one:
  assumes "distinct xs" "k < length xs"
  shows "set (take k xs @ drop (Suc k) xs) = set xs - {xs ! k}"
proof -
  have "xs = take k xs @ xs ! k # drop (Suc k) xs"
    using assms(2) by (simp add: id_take_nth_drop)
  then have d: "distinct (take k xs @ xs ! k # drop (Suc k) xs)" and
       s: "set xs = set (take k xs @ xs ! k # drop (Suc k) xs)"
    using assms(1) by simp_all
  show ?thesis using d unfolding s by auto
qed

lemma set_update_distinct:
  assumes "distinct xs" "k < length xs"
  shows "set (xs[k := a]) = insert a (set xs - {xs ! k})"
proof -
  have "xs[k := a] = take k xs @ a # drop (Suc k) xs"
    using assms(2) by (simp add: upd_conv_take_nth_drop)
  then show ?thesis using set_drop_one [OF assms] by auto
qed

lemma resume_inv:
  assumes "pool_inv get urls st" "k < length (waiting st)"
  shows "pool_inv get urls (resume get urls k st)"
proof -
  let ?w = "waiting st" and ?idx = "waiting st ! k" and ?n = "length urls"
  have d: "distinct ?w" and lt: "\<forall>j \<in> set ?w. j < next_i st" and len: "length (out st) = ?n"
    and le: "next_i st \<le> ?n"
    and o: "\<forall>j < ?n. out st ! j =
        (if j < next_i st \<and> j \<notin> set ?w then Some (download_one get (urls ! j)) else None)"
    using assms(1) by (simp_all add: pool_inv_def)
  have idx: "?idx \<in> set ?w" using assms(2) by simp
  then have idx_lt: "?idx < next_i st" using lt by blast
  show ?thesis
  proof (cases "next_i st < ?n")
    case True
    have fresh: "next_i st \<notin> set ?w" using lt by auto
    have s: "set (?w[k := next_i st]) = insert (next_i st) (set ?w - {?idx})"
      using set_update_distinct [OF d assms(2)] .
    have d': "distinct (?w[k := next_i st])"
      using d fresh by (simp add: distinct_list_update)
    show ?thesis
      using True len le lt o idx_lt fresh d'
      by (auto simp: pool_inv_def resume_def worker_loop_def Let_def s nth_list_update)
  next
    case False
    have s: "set (take k ?w @ drop (Suc k) ?w) = set ?w - {?idx}"
      using set_drop_one [OF d assms(2)] .
    have d': "distinct (take k ?w @ drop (Suc k) ?w)"
      using distinct_drop_one [OF d assms(2)] .
    show ?thesis
      using False len le lt o idx_lt
      by (auto simp: pool_inv_def resume_def worker_loop_def Let_def s d' nth_list_update
               simp del: set_append distinct_append)
  qed
qed

lemma resume_live:
  assumes "pool_live urls st" "k < length (waiting st)"
  shows "pool_live urls (resume get urls k st)"
  using assms by (auto simp: pool_live_def resume_def worker_loop_def Let_def)

lemma pool_done:
  assumes "pool_inv get urls st" "pool_live urls st" "waiting st = []"
  shows "out st = map (\<lambda>u. Some (download_one get u)) urls"
proof (rule nth_equalityI)
  show "length (out st) = length (map (\<lambda>u. Some (download_one get u)) urls)"
    using assms(1) by (simp add: pool_inv_def)
next
  fix j assume "j < length (out st)"
  moreover have "next_i st = length urls"
    using assms by (simp add: pool_inv_def pool_live_def)
  ultimately show "out st ! j = map (\<lambda>u. Some (download_one get u)) urls ! j"
    using assms(1,3) by (simp add: pool_inv_def)
qed

lemma pool_run_result:
  assumes "pool_inv get urls st" "pool_live urls st"
  shows "pool_run get urls sched st = map (\<lambda>u. Some (download_one get u)) urls"
  using assms
proof (induction get urls sched st rule: pool_run.induct)
  case (1 get urls sched st)
  show ?case
  proof (cases "waiting st = []")
    case True
    then show ?thesis using pool_done [OF "1.prems"] by (simp add: pool_run.simps)
  next
    case False
    then have k: "pick sched (length (waiting st)) < length (waiting st)"
      by (simp add: pick_less)
    have "pool_run get urls (tl sched) (resume get urls (pick sched (length (waiting st))) st)
            = map (\<lambda>u. Some (download_one get u)) urls"
      using "1.IH" [OF False resume_inv [OF "1.prems"(1) k] resume_live [OF "1.prems"(2) k]] .
    then show ?thesis using False by (subst pool_run.simps) simp
  qed
qed

lemma start_workers_inv: "pool_inv get urls (start_workers urls limit)"
  by (auto simp: pool_inv_def start_workers_def Let_def)

lemma start_workers_live: "1 \<le> limit \<Longrightarrow> pool_live urls (start_workers urls limit)"
  by (auto simp: pool_live_def start_workers_def Let_def)

text \<open>
  The downloader starts \<^verbatim>\<open>Math.min(limit, urls.length || 1)\<close> workers and does not check
  the limit itself: with a limit of 0 it would start none. The limit comes from
  \<^verbatim>\<open>parseArgs\<close>, which passes 8 unless the command line names a number, and then
  \<^verbatim>\<open>Math.max(1, ...)\<close> of it.
\<close>

lemma start_workers_limit_0:
  "downloadWithConcurrency [''https://x.test/a.png''] example_net 0 [] = [None]"
  by (simp add: downloadWithConcurrency_def start_workers_def pool_run.simps)

text \<open>
  C6: for every URL list, every concurrency limit the command line can pass (at least 1)
  and every order in which the fetches complete, the result has at each index the
  outcome of the URL at that index: the success record when its fetch returned, the
  failure record when it threw. So every URL is attempted, and a failure stops nothing.
\<close>

theorem downloadWithConcurrency_indexed:
  assumes "1 \<le> limit"
  shows "downloadWithConcurrency urls get limit sched = map (\<lambda>u. Some (download_one get u)) urls"
  unfolding downloadWithConcurrency_def
  using pool_run_result [OF start_workers_inv start_workers_live [OF assms]] .

theorem downloadWithConcurrency_indexed_witness:
  "(1::int) \<le> 2 \<and>
   downloadWithConcurrency
     [''https://x.test/a.png'', ''https://x.test/missing.png'', ''https://x.test/b.png'']
     example_net 2 [1, 0, 0] =
     [Some (Ok ''https://x.test/a.png'' ''https://x.test/a.png'' ''image/png'' ''PNG''),
      Some (Fail ''https://x.test/missing.png'' (NonOkHttp 404 ''https://x.test/missing.png'')),
      Some (Ok ''https://x.test/b.png'' ''https://x.test/b.png'' ''image/png'' ''PNG'')]"
  using downloadWithConcurrency_indexed [of 2
     "[''https://x.test/a.png'', ''https://x.test/missing.png'', ''https://x.test/b.png'']"
     example_net "[1, 0, 0]"]
  by (simp add: download_one_def fetchBinary_def example_net_def png_response_def not_found_def)

section \<open>Properties of the URL-to-local-path map\<close>

lemmas example_lib_defs = example_lib_def example_pathname_def example_extname_def
  example_basename_def example_sha1_def example_mime_lookup_def example_mime_extension_def
  example_resolve_def

lemmas path_eval = saveAssets_def localPathForAsset_def classifyByExtOrMime_def
  ensureExt_def sanitize_def strip_last_ext_def sha1Short_def target_url_def
  example_lib_defs toLowerCase_def lower_char_def Let_def safe_char_def lower_letters_def
  upper_letters_def digits_def starts_with_def

lemma map_of_map_set: "map_of (map_set m k v) = (map_of m)(k \<mapsto> v)"
  by (induction m) auto

lemma save_step_dom:
  "save_step L st r = Inr st' \<Longrightarrow>
   dom (map_of (urlToLocalRel st')) = dom (map_of (urlToLocalRel st)) \<union> keys_of r"
  by (cases "(L, st, r)" rule: save_step.cases) (auto simp: map_of_map_set split: sum.splits)

lemma save_step_other:
  "save_step L st r = Inr st' \<Longrightarrow> k \<notin> keys_of r \<Longrightarrow>
   map_of (urlToLocalRel st') k = map_of (urlToLocalRel st) k"
  by (cases "(L, st, r)" rule: save_step.cases) (auto simp: map_of_map_set split: sum.splits)

lemma save_step_Ok:
  assumes "save_step L st (Some (Ok url final ctype buf)) = Inr st'"
  shows "\<exists>p. localPathForAsset L (target_url url final) ctype = Inr p \<and>
             map_of (urlToLocalRel st') url = Some p \<and>
             map_of (urlToLocalRel st') (target_url url final) = Some p \<and>
             files st' = files st @ [(p, buf)]"
  using assms by (auto simp: map_of_map_set split: sum.splits)

lemma save_loop_dom:
  "save_loop L st rs = Inr st' \<Longrightarrow>
   dom (map_of (urlToLocalRel st')) = dom (map_of (urlToLocalRel st)) \<union> (\<Union>r\<in>set rs. keys_of r)"
proof (induction rs arbitrary: st)
  case Nil then show ?case by simp
next
  case (Cons r rs)
  then obtain s1 where s1: "save_step L st r = Inr s1" and rest: "save_loop L s1 rs = Inr st'"
    by (auto split: sum.splits)
  show ?case using Cons.IH [OF rest] save_step_dom [OF s1] by auto
qed

lemma save_loop_other:
  "save_loop L st rs = Inr st' \<Longrightarrow> \<forall>r\<in>set rs. k \<notin> keys_of r \<Longrightarrow>
   map_of (urlToLocalRel st') k = map_of (urlToLocalRel st) k"
proof (induction rs arbitrary: st)
  case Nil then show ?case by simp
next
  case (Cons r rs)
  then obtain s1 where s1: "save_step L st r = Inr s1" and rest: "save_loop L s1 rs = Inr st'"
    by (auto split: sum.splits)
  show ?case using Cons.IH [OF rest] save_step_other [OF s1] Cons.prems(2) by auto
qed

lemma save_loop_append:
  "save_loop L st (xs @ ys) =
     (case save_loop L st xs of Inl e \<Rightarrow> Inl e | Inr s \<Rightarrow> save_loop L s ys)"
  by (induction xs arbitrary: st) (auto split: sum.splits)

text \<open>
  C1, as stated, fails: the loop writes each successful outcome's path under both of its
  keys, but a later outcome that shares a key overwrites it. Here the first outcome was
  requested as \<^verbatim>\<open>http://x.test/logo\<close> and ended at \<^verbatim>\<open>https://x.test/logo\<close>; in the finished
  map its two keys hold different local paths.
\<close>

theorem urlToLocalRel_overwritten_counterexample:
  "saveAssets example_lib logo_results =
     Inr \<lparr>urlToLocalRel =
            [(''https://x.test/logo'', ''assets/other/logo-8f97bfe5.html''),
             (''http://x.test/logo'', ''assets/img/logo-8f97bfe5.png'')],
          saved = 2, failed = 0,
          files = [(''assets/img/logo-8f97bfe5.png'', ''PNG''),
                   (''assets/other/logo-8f97bfe5.html'', ''<html></html>'')]\<rparr>"
  by (simp add: logo_results_def path_eval)

lemma save_loop_key_kept:
  assumes "save_loop L s post = Inr st'"
      and "map_of (urlToLocalRel s) k = Some p"
      and "\<And>url final ctype buf.
             Some (Ok url final ctype buf) \<in> set post \<Longrightarrow>
             k \<in> keys_of (Some (Ok url final ctype buf)) \<Longrightarrow>
             localPathForAsset L (target_url url final) ctype = Inr p"
  shows "map_of (urlToLocalRel st') k = Some p"
  using assms
proof (induction post arbitrary: s)
  case Nil
  then show ?case by simp
next
  case (Cons r rs)
  from Cons.prems(1) obtain s1 where
      s1: "save_step L s r = Inr s1" and rest: "save_loop L s1 rs = Inr st'"
    by (auto split: sum.splits)
  have "map_of (urlToLocalRel s1) k = Some p"
  proof (cases "k \<in> keys_of r")
    case False
    then show ?thesis using save_step_other [OF s1] Cons.prems(2) by simp
  next
    case True
    then obtain url final ctype buf where r: "r = Some (Ok url final ctype buf)"
      by (cases r rule: keys_of.cases) auto
    from save_step_Ok [OF s1 [unfolded r]] obtain q where
        q: "localPathForAsset L (target_url url final) ctype = Inr q"
        and "map_of (urlToLocalRel s1) url = Some q"
        and "map_of (urlToLocalRel s1) (target_url url final) = Some q"
      by blast
    moreover have "localPathForAsset L (target_url url final) ctype = Inr p"
      using Cons.prems(3) [of url final ctype buf] True r by simp
    ultimately show ?thesis using True r by auto
  qed
  moreover have "localPathForAsset L (target_url url final) ctype = Inr p"
    if "Some (Ok url final ctype buf) \<in> set rs" and "k \<in> keys_of (Some (Ok url final ctype buf))"
    for url final ctype buf
    using Cons.prems(3) [of url final ctype buf] that by simp
  ultimately show ?case by (rule Cons.IH [OF rest])
qed

lemma save_loop_stored:
  assumes "save_loop L st (pre @ Some (Ok url final ctype buf) # post) = Inr st'"
  shows "\<exists>s p. save_loop L st (pre @ [Some (Ok url final ctype buf)]) = Inr s \<and>
               save_loop L s post = Inr st' \<and>
               localPathForAsset L (target_url url final) ctype = Inr p \<and>
               map_of (urlToLocalRel s) url = Some p \<and>
               map_of (urlToLocalRel s) (target_url url final) = Some p"
proof -
  from assms obtain s1 s2 where
      pre: "save_loop L st pre = Inr s1"
      and step: "save_step L s1 (Some (Ok url final ctype buf)) = Inr s2"
      and rest: "save_loop L s2 post = Inr st'"
    by (auto simp: save_loop_append split: sum.splits)
  from save_step_Ok [OF step] obtain p where
      "localPathForAsset L (target_url url final) ctype = Inr p"
      "map_of (urlToLocalRel s2) url = Some p"
      "map_of (urlToLocalRel s2) (target_url url final) = Some p"
    by blast
  moreover have "save_loop L st (pre @ [Some (Ok url final ctype buf)]) = Inr s2"
    using pre step by (simp add: save_loop_append)
  ultimately show ?thesis using rest by blast
qed

text \<open>
  C1, amended: the keys of the finished map are exactly the requested and the final URLs
  of the successful outcomes (a failed download or an empty slot contributes nothing).
  Each successful outcome, when the loop reaches it, stores one local path, the one
  computed from its final URL and content type, under both its requested and its final
  URL. A key keeps the path of the last successful outcome that has it as requested or
  final URL. So both keys of an outcome hold the outcome's path in the finished map
  whenever every later successful outcome that shares a key with it is given the same
  local path, as it is when it has the same final URL and content type: when none shares
  a key, or when the same asset is reached again directly after it was reached through a
  redirect.
\<close>

theorem urlToLocalRel_from_successes:
  assumes "saveAssets L results = Inr st"
  shows "dom (map_of (urlToLocalRel st)) = (\<Union>r\<in>set results. keys_of r) \<and>
         (\<forall>pre url final ctype buf post.
            results = pre @ Some (Ok url final ctype buf) # post \<longrightarrow>
            (\<exists>s p. saveAssets L (pre @ [Some (Ok url final ctype buf)]) = Inr s \<and>
                   localPathForAsset L (target_url url final) ctype = Inr p \<and>
                   map_of (urlToLocalRel s) url = Some p \<and>
                   map_of (urlToLocalRel s) (target_url url final) = Some p)) \<and>
         (\<forall>k pre url final ctype buf post.
            results = pre @ Some (Ok url final ctype buf) # post \<and>
            k \<in> keys_of (Some (Ok url final ctype buf)) \<and>
            (\<forall>r\<in>set post. k \<notin> keys_of r) \<longrightarrow>
            (\<exists>p. localPathForAsset L (target_url url final) ctype = Inr p \<and>
                 map_of (urlToLocalRel st) k = Some p)) \<and>
         (\<forall>pre url final ctype buf post.
            results = pre @ Some (Ok url final ctype buf) # post \<and>
            (\<forall>url' final' ctype' buf'.
               Some (Ok url' final' ctype' buf') \<in> set post \<and>
               keys_of (Some (Ok url' final' ctype' buf')) \<inter> keys_of (Some (Ok url final ctype buf)) \<noteq> {} \<longrightarrow>
               localPathForAsset L (target_url url' final') ctype'
                 = localPathForAsset L (target_url url final) ctype) \<longrightarrow>
            (\<exists>p. localPathForAsset L (target_url url final) ctype = Inr p \<and>
                 map_of (urlToLocalRel st) url = Some p \<and>
                 map_of (urlToLocalRel st) (target_url url final) = Some p))"
proof (intro conjI allI impI)
  show "dom (map_of (urlToLocalRel st)) = (\<Union>r\<in>set results. keys_of r)"
    using save_loop_dom [OF assms [unfolded saveAssets_def]] by simp
next
  fix pre url final ctype buf post
  assume "results = pre @ Some (Ok url final ctype buf) # post"
  then have "save_loop L \<lparr>urlToLocalRel = [], saved = 0, failed = 0, files = []\<rparr>
               (pre @ Some (Ok url final ctype buf) # post) = Inr st"
    using assms by (simp add: saveAssets_def)
  from save_loop_stored [OF this]
  show "\<exists>s p. saveAssets L (pre @ [Some (Ok url final ctype buf)]) = Inr s \<and>
               localPathForAsset L (target_url url final) ctype = Inr p \<and>
               map_of (urlToLocalRel s) url = Some p \<and>
               map_of (urlToLocalRel s) (target_url url final) = Some p"
    unfolding saveAssets_def by blast
next
  fix k pre url final ctype buf post
  assume h: "results = pre @ Some (Ok url final ctype buf) # post \<and>
            k \<in> keys_of (Some (Ok url final ctype buf)) \<and>
            (\<forall>r\<in>set post. k \<notin> keys_of r)"
  then have "save_loop L \<lparr>urlToLocalRel = [], saved = 0, failed = 0, files = []\<rparr>
               (pre @ Some (Ok url final ctype buf) # post) = Inr st"
    using assms by (simp add: saveAssets_def)
  from save_loop_stored [OF this] obtain s p where
      rest: "save_loop L s post = Inr st"
      and p: "localPathForAsset L (target_url url final) ctype = Inr p"
      and u: "map_of (urlToLocalRel s) url = Some p"
      and t: "map_of (urlToLocalRel s) (target_url url final) = Some p"
    by blast
  have "map_of (urlToLocalRel st) k = map_of (urlToLocalRel s) k"
    using save_loop_other [OF rest] h by blast
  moreover have "map_of (urlToLocalRel s) k = Some p"
    using h u t by auto
  ultimately show "\<exists>p. localPathForAsset L (target_url url final) ctype = Inr p \<and>
                 map_of (urlToLocalRel st) k = Some p"
    using p by simp
next
  fix pre url final ctype buf post
  assume h: "results = pre @ Some (Ok url final ctype buf) # post \<and>
            (\<forall>url' final' ctype' buf'.
               Some (Ok url' final' ctype' buf') \<in> set post \<and>
               keys_of (Some (Ok url' final' ctype' buf')) \<inter> keys_of (Some (Ok url final ctype buf)) \<noteq> {} \<longrightarrow>
               localPathForAsset L (target_url url' final') ctype'
                 = localPathForAsset L (target_url url final) ctype)"
  then have "save_loop L \<lparr>urlToLocalRel = [], saved = 0, failed = 0, files = []\<rparr>
               (pre @ Some (Ok url final ctype buf) # post) = Inr st"
    using assms by (simp add: saveAssets_def)
  from save_loop_stored [OF this] obtain s p where
      rest: "save_loop L s post = Inr st"
      and p: "localPathForAsset L (target_url url final) ctype = Inr p"
      and u: "map_of (urlToLocalRel s) url = Some p"
      and t: "map_of (urlToLocalRel s) (target_url url final) = Some p"
    by blast
  have same: "localPathForAsset L (target_url url' final') ctype' = Inr p"
    if "Some (Ok url' final' ctype' buf') \<in> set post"
      and "k \<in> keys_of (Some (Ok url' final' ctype' buf'))"
      and "k \<in> keys_of (Some (Ok url final ctype buf))"
    for k url' final' ctype' buf'
  proof -
    have "keys_of (Some (Ok url' final' ctype' buf')) \<inter> keys_of (Some (Ok url final ctype buf)) \<noteq> {}"
      using that(2,3) by blast
    then have "localPathForAsset L (target_url url' final') ctype'
                 = localPathForAsset L (target_url url final) ctype"
      using h that(1) by blast
    then show ?thesis using p by simp
  qed
  have "map_of (urlToLocalRel st) url = Some p"
    by (rule save_loop_key_kept [OF rest u]) (rule same, assumption+, simp)
  moreover have "map_of (urlToLocalRel st) (target_url url final) = Some p"
    by (rule save_loop_key_kept [OF rest t]) (rule same, assumption+, simp)
  ultimately show "\<exists>p. localPathForAsset L (target_url url final) ctype = Inr p \<and>
                 map_of (urlToLocalRel st) url = Some p \<and>
                 map_of (urlToLocalRel st) (target_url url final) = Some p"
    using p by simp
qed

theorem urlToLocalRel_from_successes_witness:
  "saveAssets example_lib duplicate_results = Inr duplicate_saved \<and>
   duplicate_results =
     [] @ Some (Ok ''http://x.test/logo'' ''https://x.test/logo'' ''image/png'' ''PNG'') #
     [Some (Ok ''https://x.test/logo'' ''https://x.test/logo'' ''image/png'' ''PNG'')] \<and>
   dom (map_of (urlToLocalRel duplicate_saved)) = {''https://x.test/logo'', ''http://x.test/logo''} \<and>
   localPathForAsset example_lib ''https://x.test/logo'' ''image/png''
     = Inr ''assets/img/logo-8f97bfe5.png'' \<and>
   map_of (urlToLocalRel duplicate_saved) ''http://x.test/logo''
     = Some ''assets/img/logo-8f97bfe5.png'' \<and>
   map_of (urlToLocalRel duplicate_saved) ''https://x.test/logo''
     = Some ''assets/img/logo-8f97bfe5.png'' \<and>
   saveAssets example_lib mixed_results = Inr mixed_saved \<and>
   dom (map_of (urlToLocalRel mixed_saved)) =
     {''https://x.test/a.png'', ''https://x.test/logo'', ''http://x.test/logo''}"
proof -
  have e: "saveAssets example_lib duplicate_results = Inr duplicate_saved"
    by (simp add: duplicate_results_def duplicate_saved_def path_eval)
  have s: "duplicate_results =
     [] @ Some (Ok ''http://x.test/logo'' ''https://x.test/logo'' ''image/png'' ''PNG'') #
     [Some (Ok ''https://x.test/logo'' ''https://x.test/logo'' ''image/png'' ''PNG'')]"
    by (simp add: duplicate_results_def)
  have t: "target_url ''http://x.test/logo'' ''https://x.test/logo'' = ''https://x.test/logo''"
    "target_url ''https://x.test/logo'' ''https://x.test/logo'' = ''https://x.test/logo''"
    by (simp_all add: target_url_def)
  note th = urlToLocalRel_from_successes [OF e]
  note all = th [THEN conjunct1]
  note both = th [THEN conjunct2, THEN conjunct2, THEN conjunct2]
  have d: "dom (map_of (urlToLocalRel duplicate_saved)) = {''https://x.test/logo'', ''http://x.test/logo''}"
    unfolding all by (auto simp: duplicate_results_def target_url_def)
  have "\<exists>p. localPathForAsset example_lib
               (target_url ''http://x.test/logo'' ''https://x.test/logo'') ''image/png'' = Inr p \<and>
             map_of (urlToLocalRel duplicate_saved) ''http://x.test/logo'' = Some p \<and>
             map_of (urlToLocalRel duplicate_saved)
               (target_url ''http://x.test/logo'' ''https://x.test/logo'') = Some p"
    using both [rule_format, of "[]" "''http://x.test/logo''" "''https://x.test/logo''" "''image/png''"
        "''PNG''" "[Some (Ok ''https://x.test/logo'' ''https://x.test/logo'' ''image/png'' ''PNG'')]"]
      s t
    by simp
  moreover have "localPathForAsset example_lib ''https://x.test/logo'' ''image/png''
     = Inr ''assets/img/logo-8f97bfe5.png''"
    by (simp add: path_eval)
  moreover have m: "saveAssets example_lib mixed_results = Inr mixed_saved"
    by (simp add: mixed_results_def mixed_saved_def path_eval)
  moreover have "dom (map_of (urlToLocalRel mixed_saved)) =
     {''https://x.test/a.png'', ''https://x.test/logo'', ''http://x.test/logo''}"
    by (auto simp: mixed_saved_def)
  ultimately show ?thesis using e s d t by auto
qed

section \<open>Properties of the path classifier\<close>

lemma classify_folder:
  "classifyByExtOrMime L u ctype = Inr folder \<Longrightarrow> folder \<in> {''js'', ''fonts'', ''img'', ''other''}"
  by (auto simp: classifyByExtOrMime_def Let_def split: option.splits if_splits)

lemma localPathForAsset_shape:
  assumes "localPathForAsset L u ctype = Inr p"
  shows "\<exists>folder name. classifyByExtOrMime L u ctype = Inr folder \<and>
           folder \<in> {''js'', ''fonts'', ''img'', ''other''} \<and>
           p = ''assets/'' @ folder @ ''/'' @ name"
proof -
  from assms obtain folder where f: "classifyByExtOrMime L u ctype = Inr folder"
    by (auto simp: localPathForAsset_def split: option.splits sum.splits)
  with assms obtain name where "p = ''assets/'' @ folder @ ''/'' @ name"
    by (auto simp: localPathForAsset_def Let_def split: option.splits sum.splits)
  with f classify_folder [OF f] show ?thesis by blast
qed

text \<open>
  C7: the local path given to a download is a function of the pair (absolute URL,
  content type) alone. Whatever the state of the saving loop (the map built so far, the
  counters, the files already written), whatever the requested URL before redirects and
  whatever the bytes, two successful outcomes with the same final URL and the same
  content type are stored and written under the same path
  \<^verbatim>\<open>assets/<folder>/<name>\<close>, the value of \<open>localPathForAsset\<close> at that pair.
\<close>

theorem localPath_function_of_url_and_type:
  assumes "save_step L s (Some (Ok url final ctype buf)) = Inr t"
      and "save_step L s' (Some (Ok url' final' ctype buf')) = Inr t'"
      and "target_url url final = target_url url' final'"
  shows "fst (last (files t)) = fst (last (files t')) \<and>
         map_of (urlToLocalRel t) url = map_of (urlToLocalRel t') url' \<and>
         localPathForAsset L (target_url url final) ctype = Inr (fst (last (files t))) \<and>
         (\<exists>folder name. classifyByExtOrMime L (target_url url final) ctype = Inr folder \<and>
            folder \<in> {''js'', ''fonts'', ''img'', ''other''} \<and>
            fst (last (files t)) = ''assets/'' @ folder @ ''/'' @ name)"
proof -
  from save_step_Ok [OF assms(1)] obtain p where
    p: "localPathForAsset L (target_url url final) ctype = Inr p"
       "map_of (urlToLocalRel t) url = Some p" "files t = files s @ [(p, buf)]"
    by blast
  from save_step_Ok [OF assms(2)] obtain q where
    q: "localPathForAsset L (target_url url' final') ctype = Inr q"
       "map_of (urlToLocalRel t') url' = Some q" "files t' = files s' @ [(q, buf')]"
    by blast
  have "p = q" using p(1) q(1) assms(3) by simp
  then show ?thesis using p q localPathForAsset_shape [OF p(1)] by simp
qed

theorem localPath_function_of_url_and_type_witness:
  "save_step example_lib \<lparr>urlToLocalRel = [], saved = 0, failed = 0, files = []\<rparr>
     (Some (Ok ''http://x.test/logo'' ''https://x.test/logo'' ''image/png'' ''PNG''))
     = Inr logo_saved_1 \<and>
   save_step example_lib mixed_saved
     (Some (Ok ''https://x.test/logo'' [] ''image/png'' ''other bytes''))
     = Inr logo_saved_2 \<and>
   target_url ''http://x.test/logo'' ''https://x.test/logo'' = target_url ''https://x.test/logo'' [] \<and>
   fst (last (files logo_saved_1)) = ''assets/img/logo-8f97bfe5.png'' \<and>
   fst (last (files logo_saved_2)) = ''assets/img/logo-8f97bfe5.png''"
proof -
  have a: "save_step example_lib \<lparr>urlToLocalRel = [], saved = 0, failed = 0, files = []\<rparr>
     (Some (Ok ''http://x.test/logo'' ''https://x.test/logo'' ''image/png'' ''PNG''))
     = Inr logo_saved_1"
    by (simp add: logo_saved_1_def path_eval)
  have b: "save_step example_lib mixed_saved
     (Some (Ok ''https://x.test/logo'' [] ''image/png'' ''other bytes''))
     = Inr logo_saved_2"
    by (simp add: logo_saved_2_def mixed_saved_def path_eval)
  have c: "target_url ''http://x.test/logo'' ''https://x.test/logo'' = target_url ''https://x.test/logo'' []"
    by (simp add: target_url_def)
  have "fst (last (files logo_saved_1)) = fst (last (files logo_saved_2))"
    using localPath_function_of_url_and_type [OF a b c] by blast
  moreover have "fst (last (files logo_saved_1)) = ''assets/img/logo-8f97bfe5.png''"
    by (simp add: logo_saved_1_def)
  ultimately show ?thesis using a b c by simp
qed

section \<open>Properties of the combined asset list\<close>

lemma uniq_from_set: "set (uniq_from seen xs) = set xs - set seen"
  by (induction xs arbitrary: seen) auto

lemma uniq_from_distinct: "distinct (uniq_from seen xs)"
  by (induction xs arbitrary: seen) (auto simp: uniq_from_set)

lemma set_uniq: "set (uniq xs) = set xs"
  by (simp add: uniq_def uniq_from_set)

lemma distinct_uniq: "distinct (uniq xs)"
  by (simp add: uniq_def uniq_from_distinct)

lemma set_allAssetUrls: "set (allAssetUrls h c) = {u \<in> set h \<union> set c. is_http u}"
  by (auto simp: allAssetUrls_def set_uniq)

lemma downloadWithConcurrency_eq:
  "downloadWithConcurrency urls get limit sched =
     (if 1 \<le> limit then map (\<lambda>u. Some (download_one get u)) urls
      else replicate (length urls) None)"
proof (cases "1 \<le> limit")
  case True
  then show ?thesis
    unfolding downloadWithConcurrency_def
    using pool_run_result [OF start_workers_inv start_workers_live [OF True]] by simp
next
  case False
  then have "start_workers urls limit = \<lparr>next_i = 0, out = replicate (length urls) None, waiting = []\<rparr>"
    by (simp add: start_workers_def Let_def)
  then show ?thesis using False
    by (simp add: downloadWithConcurrency_def pool_run.simps)
qed

lemma keys_of_download_one:
  assumes "reports_http_urls get" "is_http u"
  shows "\<forall>k \<in> keys_of (Some (download_one get u)). is_http k"
proof (cases "fetchBinary get u")
  case (Inl e)
  then show ?thesis by (simp add: download_one_def)
next
  case (Inr f)
  then obtain res where res: "get u = Inr res" and fin: "finalUrl f = or_else (responseUrl res) u"
    by (auto simp: fetchBinary_def split: sum.splits if_splits)
  have "is_http (finalUrl f) \<or> finalUrl f = u"
  proof (cases "responseUrl res")
    case None
    then show ?thesis using fin by simp
  next
    case (Some g)
    then show ?thesis using fin res assms(1) by (auto simp: reports_http_urls_def)
  qed
  then show ?thesis using Inr assms(2) by (auto simp: download_one_def target_url_def)
qed

lemma keys_of_results:
  assumes "reports_http_urls get" "\<forall>u \<in> set urls. is_http u"
  shows "\<forall>r \<in> set (downloadWithConcurrency urls get limit sched). \<forall>k \<in> keys_of r. is_http k"
proof (cases "1 \<le> limit")
  case True
  then show ?thesis
    using assms keys_of_download_one [OF assms(1)]
    by (auto simp: downloadWithConcurrency_eq simp del: keys_of.simps)
next
  case False
  then show ?thesis by (auto simp: downloadWithConcurrency_eq)
qed

text \<open>
  C10: the list handed to the downloader holds exactly the discovered candidates that
  pass \<^verbatim>\<open>/^https?:\/\//\<close>, so every URL in it starts with \<^verbatim>\<open>http://\<close> or \<^verbatim>\<open>https://\<close>; a
  candidate with any other scheme is not in the list, is never requested, and has no entry
  in the URL-to-local-path map. The map's other keys are the final URLs the HTTP client
  reports, which are URLs it requested itself, hence http or https.
\<close>

theorem only_http_urls_downloaded:
  assumes "reports_http_urls get"
      and "download_and_save L get htmlAssetUrls cssAssetUrls limit sched = Inr st"
  shows "set (allAssetUrls htmlAssetUrls cssAssetUrls)
           = {u \<in> set htmlAssetUrls \<union> set cssAssetUrls. is_http u} \<and>
         (\<forall>u. \<not> is_http u \<longrightarrow>
            u \<notin> set (allAssetUrls htmlAssetUrls cssAssetUrls) \<and>
            map_of (urlToLocalRel st) u = None)"
proof (intro conjI allI impI)
  show "set (allAssetUrls htmlAssetUrls cssAssetUrls)
           = {u \<in> set htmlAssetUrls \<union> set cssAssetUrls. is_http u}"
    by (rule set_allAssetUrls)
next
  fix u assume "\<not> is_http u"
  then show "u \<notin> set (allAssetUrls htmlAssetUrls cssAssetUrls)"
    by (simp add: set_allAssetUrls)
next
  fix u assume n: "\<not> is_http u"
  let ?rs = "downloadWithConcurrency (allAssetUrls htmlAssetUrls cssAssetUrls) get limit sched"
  have "\<forall>u \<in> set (allAssetUrls htmlAssetUrls cssAssetUrls). is_http u"
    by (simp add: set_allAssetUrls)
  from keys_of_results [OF assms(1) this]
  have "\<forall>r \<in> set ?rs. \<forall>k \<in> keys_of r. is_http k" .
  then have "u \<notin> (\<Union>r\<in>set ?rs. keys_of r)" using n by blast
  moreover have "dom (map_of (urlToLocalRel st)) = (\<Union>r\<in>set ?rs. keys_of r)"
    using save_loop_dom [OF assms(2) [unfolded download_and_save_def saveAssets_def]] by simp
  ultimately show "map_of (urlToLocalRel st) u = None" by blast
qed

lemma example_net_reports_http: "reports_http_urls example_net"
  by (auto simp: reports_http_urls_def example_net_def png_response_def not_found_def
        is_http_def starts_with_def split: if_splits)

theorem only_http_urls_downloaded_witness:
  "reports_http_urls example_net \<and>
   download_and_save example_lib example_net
     [''https://x.test/a.png'', ''data:image/png;base64,AAAA'', ''mailto:a@x.test'']
     [''https://x.test/a.png'', ''ftp://x.test/f.bin'', ''https://x.test/missing.png''] 8 []
     = Inr a_saved \<and>
   allAssetUrls
     [''https://x.test/a.png'', ''data:image/png;base64,AAAA'', ''mailto:a@x.test'']
     [''https://x.test/a.png'', ''ftp://x.test/f.bin'', ''https://x.test/missing.png'']
     = [''https://x.test/a.png'', ''https://x.test/missing.png''] \<and>
   \<not> is_http ''ftp://x.test/f.bin'' \<and>
   map_of (urlToLocalRel a_saved) ''ftp://x.test/f.bin'' = None"
proof -
  have all: "allAssetUrls
     [''https://x.test/a.png'', ''data:image/png;base64,AAAA'', ''mailto:a@x.test'']
     [''https://x.test/a.png'', ''ftp://x.test/f.bin'', ''https://x.test/missing.png'']
     = [''https://x.test/a.png'', ''https://x.test/missing.png'']"
    by (simp add: allAssetUrls_def uniq_def is_http_def starts_with_def)
  have e: "download_and_save example_lib example_net
     [''https://x.test/a.png'', ''data:image/png;base64,AAAA'', ''mailto:a@x.test'']
     [''https://x.test/a.png'', ''ftp://x.test/f.bin'', ''https://x.test/missing.png''] 8 []
     = Inr a_saved"
    unfolding download_and_save_def all
    by (simp add: downloadWithConcurrency_eq download_one_def fetchBinary_def example_net_def
          png_response_def not_found_def a_saved_def path_eval)
  have n: "\<not> is_http ''ftp://x.test/f.bin''"
    by (simp add: is_http_def starts_with_def)
  have "map_of (urlToLocalRel a_saved) ''ftp://x.test/f.bin'' = None"
    using only_http_urls_downloaded [OF example_net_reports_http e] n by blast
  then show ?thesis using example_net_reports_http all e n by simp
qed

section \<open>Properties of the CSS processor\<close>








section \<open>Properties of import inlining\<close>

lemma imported_append: "imported (xs @ ys) = imported xs @ imported ys"
  by (induction xs rule: imported.induct) auto

lemma imported_map: "imported (map Imported us) = us"
  by (induction us) auto

lemma grows_refl: "grows st st []"
  by (simp add: grows_def)

lemma grows_trans:
  assumes "grows st st1 new1" "grows st1 st2 new2"
  shows "grows st st2 (new1 @ new2)"
  using assms by (auto simp: grows_def)

lemma import_loop_grows:
  "import_loop L cssUrl d ps st = (tasks, fallbacks, st') \<Longrightarrow>
   \<exists>new. grows st st' new \<and> size (sum_list (map pending_depths tasks)) = length new"
proof (induction L cssUrl d ps st arbitrary: tasks fallbacks st' rule: import_loop.induct)
  case (1 L cssUrl d st)
  then show ?case using grows_refl [of st] by auto
next
  case (2 L cssUrl d x ps st)
  then show ?case by simp
next
  case (3 L cssUrl d raw c ps st)
  show ?case
  proof (cases "url_resolve L (cap_get c 1) cssUrl")
    case None
    then obtain fbs where "import_loop L cssUrl d ps st = (tasks, fbs, st')"
      using "3.prems" by (auto simp: Let_def split: prod.splits)
    from "3.IH"(1) [OF refl None this] show ?thesis .
  next
    case (Some a)
    show ?thesis
    proof (cases "a \<in> set (visited st)")
      case True
      then obtain fbs where "import_loop L cssUrl d ps st = (tasks, fbs, st')"
        using "3.prems" Some by (auto simp: Let_def split: prod.splits)
      from "3.IH"(2) [OF refl Some True this] show ?thesis .
    next
      case False
      let ?st1 = "st\<lparr>visited := visited st @ [a], requests := requests st @ [Imported a]\<rparr>"
      from False obtain ts where r: "import_loop L cssUrl d ps ?st1 = (ts, fallbacks, st')"
        and t: "tasks = Pending raw a d # ts"
        using "3.prems" Some by (auto simp: Let_def split: prod.splits)
      from "3.IH"(3) [OF refl Some False r] obtain new where
        g: "grows ?st1 st' new" and n: "size (sum_list (map pending_depths ts)) = length new"
        by blast
      have "grows st ?st1 [a]" using False by (simp add: grows_def)
      from grows_trans [OF this g] have "grows st st' (a # new)" by simp
      then show ?thesis using n t by auto
    qed
  qed
qed

lemma start_call_grows:
  assumes "start_call L css cssUrl d st = (tasks, fallbacks, st')"
  shows "\<exists>new. grows st st' new \<and> size (sum_list (map pending_depths tasks)) = length new"
proof (cases "d = 0")
  case True
  then show ?thesis using assms grows_refl [of st] by (auto simp: start_call_def)
next
  case False
  then have "import_loop L cssUrl (d - 1) (scan IMPORT_RE css) st = (tasks, fallbacks, st')"
    using assms by (simp add: start_call_def)
  from import_loop_grows [OF this] show ?thesis .
qed

lemma grows_cssAssets: "grows (st\<lparr>cssAssets := c\<rparr>) st' new \<Longrightarrow> grows st st' new"
  by (simp add: grows_def)

lemma settle_grows:
  assumes "settle L get raw absUrl d st = (t, st')"
  shows "\<exists>new. grows st st' new \<and> size (pending_depths t) = length new"
proof (cases "fetchText get absUrl")
  case (Inl e)
  then show ?thesis using assms grows_refl [of st] by (auto simp: settle_def)
next
  case (Inr f)
  obtain rewritten collect where
    r: "rewriteCssUrlsToAbs L (payload f) (finalUrl f) (cssAssets st) = (rewritten, collect)"
    by (cases "rewriteCssUrlsToAbs L (payload f) (finalUrl f) (cssAssets st)")
  obtain tasks fallbacks st1 where
    s: "start_call L rewritten (finalUrl f) d (st\<lparr>cssAssets := collect\<rparr>) = (tasks, fallbacks, st1)"
    by (cases "start_call L rewritten (finalUrl f) d (st\<lparr>cssAssets := collect\<rparr>)")
  have "t = Loaded raw (finalUrl f) rewritten tasks fallbacks" and "st' = st1"
    using assms Inr r s by (simp_all add: settle_def)
  moreover from start_call_grows [OF s] obtain new where
    "grows (st\<lparr>cssAssets := collect\<rparr>) st1 new"
    "size (sum_list (map pending_depths tasks)) = length new"
    by blast
  ultimately show ?thesis by (auto dest: grows_cssAssets)
qed

lemma resume_grows:
  "k < size (pending_depths t) \<Longrightarrow> resume_task L get k t st = (t', st') \<Longrightarrow>
     \<exists>new. grows st st' new \<and> size (pending_depths t') + 1 = size (pending_depths t) + length new"
  "k < size (sum_list (map pending_depths ts)) \<Longrightarrow> resume_tasks L get k ts st = (ts', st') \<Longrightarrow>
     \<exists>new. grows st st' new \<and>
       size (sum_list (map pending_depths ts')) + 1 = size (sum_list (map pending_depths ts)) + length new"
proof (induction L get k t st and L get k ts st arbitrary: t' st' and ts' st'
        rule: resume_task_resume_tasks.induct)
  case (1 L get k raw absUrl d st)
  then show ?case using settle_grows [of L get raw absUrl d st t' st'] by auto
next
  case (2 L get k raw absUrl e st)
  then show ?case by simp
next
  case (3 L get k raw final css tasks fallbacks st)
  obtain ts1 st1 where r: "resume_tasks L get k tasks st = (ts1, st1)"
    by (cases "resume_tasks L get k tasks st")
  have k: "k < size (sum_list (map pending_depths tasks))" using "3.prems" by simp
  from "3.IH" [OF k r] "3.prems" r show ?case by auto
next
  case (4 L get k st)
  then show ?case by simp
next
  case (5 L get k t ts st)
  show ?case
  proof (cases "k < size (pending_depths t)")
    case True
    obtain t1 st1 where r: "resume_task L get k t st = (t1, st1)"
      by (cases "resume_task L get k t st")
    from "5.IH"(1) [OF True True r] "5.prems" r True show ?thesis by auto
  next
    case False
    obtain ts1 st1 where r: "resume_tasks L get (k - size (pending_depths t)) ts st = (ts1, st1)"
      by (cases "resume_tasks L get (k - size (pending_depths t)) ts st")
    have "k - size (pending_depths t) < size (sum_list (map pending_depths ts))"
      using "5.prems" False by simp
    from "5.IH"(2) [OF False this r] "5.prems" r False show ?thesis by auto
  qed
qed

lemma run_inv_step:
  assumes "run_inv tasks st" "k < pending_count tasks"
      and "resume_tasks L get k tasks (st\<lparr>clock := Suc (clock st)\<rparr>) = (tasks', st')"
  shows "run_inv tasks' st'"
proof -
  from resume_grows(2) [OF assms(2) [unfolded pending_count_def] assms(3)] obtain new where
    g: "grows (st\<lparr>clock := Suc (clock st)\<rparr>) st' new"
    and n: "pending_count tasks' + 1 = pending_count tasks + length new"
    by (auto simp: pending_count_def)
  show ?thesis using assms(1) g n
    by (auto simp: run_inv_def grows_def imported_append imported_map)
qed

lemma run_tasks_inv:
  "run_inv tasks st \<Longrightarrow> run_tasks L get sched tasks st = (tasks', st') \<Longrightarrow>
   run_inv tasks' st' \<and> pending_count tasks' = 0"
proof (induction L get sched tasks st rule: run_tasks.induct)
  case (1 L get sched tasks st)
  show ?case
  proof (cases "pending_count tasks = 0")
    case True
    then show ?thesis using "1.prems" by (simp add: run_tasks.simps)
  next
    case False
    let ?k = "sched (clock st) mod pending_count tasks"
    obtain ts1 st1 where r: "resume_tasks L get ?k tasks (st\<lparr>clock := Suc (clock st)\<rparr>) = (ts1, st1)"
      by (cases "resume_tasks L get ?k tasks (st\<lparr>clock := Suc (clock st)\<rparr>)")
    have k: "?k < pending_count tasks" using False by simp
    have i: "run_inv ts1 st1" using run_inv_step [OF "1.prems"(1) k r] .
    have "run_tasks L get sched ts1 st1 = (tasks', st')"
      using "1.prems"(2) False r by (subst (asm) run_tasks.simps) simp
    from "1.IH" [OF False refl refl r [symmetric] i this] show ?thesis .
  qed
qed

lemma inlineCssImports_inv:
  assumes "css_inv st" "inlineCssImports L get sched css cssUrl depth st = (result, st')"
  shows "css_inv st'"
proof -
  obtain tasks fallbacks st1 where s: "start_call L css cssUrl depth st = (tasks, fallbacks, st1)"
    by (cases "start_call L css cssUrl depth st")
  obtain tasks' st2 where r: "run_tasks L get sched tasks st1 = (tasks', st2)"
    by (cases "run_tasks L get sched tasks st1")
  have st': "st' = st2" using assms(2) s r by (simp add: inlineCssImports_def)
  from start_call_grows [OF s] obtain new where
    "grows st st1 new" "pending_count tasks = length new"
    by (auto simp: pending_count_def)
  then have "run_inv tasks st1" using assms(1)
    by (auto simp: run_inv_def css_inv_def grows_def imported_append imported_map)
  from run_tasks_inv [OF this r] show ?thesis unfolding st'
    by (simp add: run_inv_def css_inv_def)
qed

lemma css_inv_linked: "css_inv (st\<lparr>requests := requests st @ [Linked u]\<rparr>) = css_inv st"
  by (simp add: css_inv_def imported_append)

lemma css_inv_cssAssets: "css_inv (st\<lparr>cssAssets := c\<rparr>) = css_inv st"
  by (simp add: css_inv_def)

lemma linked_part_inv:
  assumes "css_inv st" "linked_part L get sched cssUrl st = (part, st')"
  shows "css_inv st'"
proof -
  let ?st0 = "st\<lparr>requests := requests st @ [Linked cssUrl]\<rparr>"
  have i0: "css_inv ?st0" using assms(1) by (simp add: css_inv_linked)
  show ?thesis
  proof (cases "fetchText get cssUrl")
    case (Inl e)
    then show ?thesis using assms(2) i0 by (simp add: linked_part_def Let_def)
  next
    case (Inr f)
    show ?thesis
    proof (cases "\<not> css_like (contentType f) \<and> \<not> ends_with ''.css'' (finalUrl f)")
      case True
      then show ?thesis using assms(2) i0 Inr by (simp add: linked_part_def Let_def)
    next
      case False
      obtain css collect where
        r: "rewriteCssUrlsToAbs L (payload f) (finalUrl f) (cssAssets ?st0) = (css, collect)"
        by (cases "rewriteCssUrlsToAbs L (payload f) (finalUrl f) (cssAssets ?st0)")
      obtain css' st1 where
        c: "inlineCssImports L get sched css (finalUrl f) 2 (?st0\<lparr>cssAssets := collect\<rparr>) = (css', st1)"
        by (cases "inlineCssImports L get sched css (finalUrl f) 2 (?st0\<lparr>cssAssets := collect\<rparr>)")
      have "css_inv (?st0\<lparr>cssAssets := collect\<rparr>)"
        using i0 by (simp only: css_inv_cssAssets)
      from inlineCssImports_inv [OF this c] have "css_inv st1" .
      moreover have "st' = st1"
        using assms(2) Inr False r c by (simp add: linked_part_def Let_def)
      ultimately show ?thesis by simp
    qed
  qed
qed

lemma inline_part_inv:
  assumes "css_inv st" "inline_part L get sched block st = (part, st')"
  shows "css_inv st'"
proof -
  obtain css baseUrl where b: "block = (css, baseUrl)" by (cases block)
  obtain rew collect where
    r: "rewriteCssUrlsToAbs L css baseUrl (cssAssets st) = (rew, collect)"
    by (cases "rewriteCssUrlsToAbs L css baseUrl (cssAssets st)")
  obtain rew' st1 where
    c: "inlineCssImports L get sched rew baseUrl 1 (st\<lparr>cssAssets := collect\<rparr>) = (rew', st1)"
    by (cases "inlineCssImports L get sched rew baseUrl 1 (st\<lparr>cssAssets := collect\<rparr>)")
  have "css_inv (st\<lparr>cssAssets := collect\<rparr>)"
    using assms(1) by (simp only: css_inv_cssAssets)
  from inlineCssImports_inv [OF this c] have "css_inv st1" .
  moreover have "st' = st1" using assms(2) b r c by (simp add: inline_part_def)
  ultimately show ?thesis by simp
qed

lemma each_part_inv:
  assumes f: "\<And>x st part st'. css_inv st \<Longrightarrow> f x st = (part, st') \<Longrightarrow> css_inv st'"
      and "css_inv st" and "each_part f xs st = (parts, st')"
  shows "css_inv st'"
  using assms(2,3)
proof (induction xs arbitrary: st parts)
  case Nil
  then show ?case by simp
next
  case (Cons x xs)
  obtain part st1 where a: "f x st = (part, st1)" by (cases "f x st")
  then obtain ps where b: "each_part f xs st1 = (ps, st')"
    using Cons.prems(2) by (auto split: prod.splits)
  have "css_inv st1" by (rule f [OF Cons.prems(1) a])
  from Cons.IH [OF this b] show ?case .
qed

lemma collectCssAndAssets_inv: "css_inv (snd (collectCssAndAssets L get sched stylesheetUrls inlineBlocks))"
proof -
  let ?st0 = "\<lparr>visited = [], cssAssets = [], requests = [], clock = 0\<rparr>"
  obtain parts1 st1 where
    a: "each_part (linked_part L get sched) stylesheetUrls ?st0 = (parts1, st1)"
    by (cases "each_part (linked_part L get sched) stylesheetUrls ?st0")
  obtain parts2 st2 where
    b: "each_part (inline_part L get sched) inlineBlocks st1 = (parts2, st2)"
    by (cases "each_part (inline_part L get sched) inlineBlocks st1")
  have i0: "css_inv ?st0" by (simp add: css_inv_def)
  have i1: "css_inv st1"
  proof (rule each_part_inv [OF _ i0 a])
    fix x st part st'
    assume "css_inv st" "linked_part L get sched x st = (part, st')"
    then show "css_inv st'" by (rule linked_part_inv)
  qed
  have "css_inv st2"
  proof (rule each_part_inv [OF _ i1 b])
    fix x st part st'
    assume "css_inv st" "inline_part L get sched x st = (part, st')"
    then show "css_inv st'" by (rule inline_part_inv)
  qed
  then show ?thesis using a b by (simp add: collectCssAndAssets_def)
qed

lemma import_loop_visited:
  assumes "url_resolve L (cap_get c 1) cssUrl = Some a" "a \<in> set (visited st)"
  shows "import_loop L cssUrl d (Match raw c # ps) st =
           (case import_loop L cssUrl d ps st of
              (tasks, fallbacks, st') \<Rightarrow>
                (tasks, (raw, ''/* @import skipped (visited): '' @ a @ '' */'') # fallbacks, st'))"
  using assms by (simp add: Let_def)

text \<open>
  C4, as stated, fails where it says that no import URL is fetched twice in one run. The
  visited set holds import targets only; the URL of a linked stylesheet is not put into
  it. For the linked stylesheet \<^verbatim>\<open>self.css\<close>, which imports itself, the run requests
  \<^verbatim>\<open>https://x.test/self.css\<close> twice: as the linked stylesheet and again as the target of its
  own import. Only the import inside the second copy is skipped as visited.
\<close>

theorem self_import_fetched_twice_counterexample:
  "collectCssAndAssets style_lib style_net (\<lambda>n. 0) [''https://x.test/self.css''] [] =
     (''/* ===== CSS from https://x.test/self.css ===== */'' @ [newline] @
      ''/* @import inlined from https://x.test/self.css */'' @ [newline] @
      ''/* @import skipped (visited): https://x.test/self.css */ .s{color:red}'' @ [newline] @
      ''/* end import */ .s{color:red}'' @ [newline],
      \<lparr>visited = [''https://x.test/self.css''],
       cssAssets = [''https://x.test/self.css''],
       requests = [Linked ''https://x.test/self.css'', Imported ''https://x.test/self.css''],
       clock = 1\<rparr>)"
  by code_simp

text \<open>
  C4, amended: inlining terminates for every input and every order in which the
  responses arrive (\<open>run_tasks\<close> is total: resuming a task replaces its depth by smaller
  ones in the multiset of pending depths), also for a stylesheet that imports itself
  directly or through another stylesheet. An import whose absolute target is already in
  the visited set gets no request; its text is paired with the comment
  \<^verbatim>\<open>/* @import skipped (visited): <url> */\<close> in the list of replacements. So in one run
  (one call of \<open>collectCssAndAssets\<close>), and in every call of \<open>inlineCssImports\<close> started
  from a state without pending tasks, the URLs requested as import targets are exactly
  the visited URLs, each requested once, and every request is answered by one
  continuation. The URL of a linked stylesheet is not in the visited set, so it may be
  requested once more as an import target.
\<close>

theorem imports_requested_once:
  "(let st = snd (collectCssAndAssets L get sched stylesheetUrls inlineBlocks)
    in imported (requests st) = visited st \<and> distinct (visited st) \<and>
       clock st = length (visited st)) \<and>
   (css_inv st0 \<longrightarrow> css_inv (snd (inlineCssImports L get sched css cssUrl depth st0))) \<and>
   (url_resolve L (cap_get c 1) cssUrl = Some a \<and> a \<in> set (visited st0) \<longrightarrow>
      import_loop L cssUrl d (Match raw c # ps) st0 =
        (case import_loop L cssUrl d ps st0 of
           (tasks, fallbacks, st1) \<Rightarrow>
             (tasks, (raw, ''/* @import skipped (visited): '' @ a @ '' */'') # fallbacks, st1)))"
proof (intro conjI impI)
  show "let st = snd (collectCssAndAssets L get sched stylesheetUrls inlineBlocks)
    in imported (requests st) = visited st \<and> distinct (visited st) \<and>
       clock st = length (visited st)"
    using collectCssAndAssets_inv [of L get sched stylesheetUrls inlineBlocks]
    by (simp add: css_inv_def Let_def)
next
  assume "css_inv st0"
  then show "css_inv (snd (inlineCssImports L get sched css cssUrl depth st0))"
    using inlineCssImports_inv [of st0 L get sched css cssUrl depth]
    by (cases "inlineCssImports L get sched css cssUrl depth st0") auto
next
  assume "url_resolve L (cap_get c 1) cssUrl = Some a \<and> a \<in> set (visited st0)"
  then show "import_loop L cssUrl d (Match raw c # ps) st0 =
        (case import_loop L cssUrl d ps st0 of
           (tasks, fallbacks, st1) \<Rightarrow>
             (tasks, (raw, ''/* @import skipped (visited): '' @ a @ '' */'') # fallbacks, st1))"
    using import_loop_visited by blast
qed

theorem imports_requested_once_witness:
  "css_inv self_visited \<and>
   css_inv (snd (inlineCssImports style_lib style_net (\<lambda>n. 0) ''@import url(a.css);''
                   ''https://x.test/self.css'' 2 self_visited)) \<and>
   url_resolve style_lib (cap_get [(1, ''self.css'')] 1) ''https://x.test/self.css''
     = Some ''https://x.test/self.css'' \<and>
   ''https://x.test/self.css'' \<in> set (visited self_visited) \<and>
   import_loop style_lib ''https://x.test/self.css'' 1
     [Match ''@import url(self.css);'' [(1, ''self.css'')]] self_visited =
     ([], [(''@import url(self.css);'', ''/* @import skipped (visited): https://x.test/self.css */'')],
      self_visited)"
proof -
  have i: "css_inv self_visited"
    by (simp add: css_inv_def self_visited_def)
  have r: "url_resolve style_lib (cap_get [(1, ''self.css'')] 1) ''https://x.test/self.css''
             = Some ''https://x.test/self.css''"
    by code_simp
  have v: "''https://x.test/self.css'' \<in> set (visited self_visited)"
    by (simp add: self_visited_def)
  note t = imports_requested_once [of style_lib style_net "\<lambda>n. 0" "[]" "[]" self_visited
      "''@import url(a.css);''" "''https://x.test/self.css''" 2 "[(1, ''self.css'')]"
      "''https://x.test/self.css''" 1 "''@import url(self.css);''" "[]"]
  have "css_inv (snd (inlineCssImports style_lib style_net (\<lambda>n. 0) ''@import url(a.css);''
                   ''https://x.test/self.css'' 2 self_visited))"
    using t i by blast
  moreover have "import_loop style_lib ''https://x.test/self.css'' 1
     [Match ''@import url(self.css);'' [(1, ''self.css'')]] self_visited =
     ([], [(''@import url(self.css);'', ''/* @import skipped (visited): https://x.test/self.css */'')],
      self_visited)"
    using t r v by simp
  ultimately show ?thesis using i r v by simp
qed

section \<open>The depth bound of import inlining\<close>

lemma narrow_run:
  "narrow L get tasks st \<Longrightarrow>
   run_tasks L get sched tasks st = run_tasks L get (\<lambda>n. 0) tasks st"
proof (induction L get tasks st rule: narrow.induct)
  case (1 L get tasks st)
  show ?case
  proof (cases "pending_count tasks = 0")
    case True
    then show ?thesis by (simp add: run_tasks.simps)
  next
    case False
    then have one: "pending_count tasks = 1"
      using "1.prems" by (subst (asm) narrow.simps) (simp split: if_splits)
    obtain ts1 st1 where r: "resume_tasks L get 0 tasks (st\<lparr>clock := Suc (clock st)\<rparr>) = (ts1, st1)"
      by (cases "resume_tasks L get 0 tasks (st\<lparr>clock := Suc (clock st)\<rparr>)")
    have "narrow L get ts1 st1"
      using "1.prems" False one r by (subst (asm) narrow.simps) simp
    from "1.IH" [OF False one refl r [symmetric] this]
    have "run_tasks L get sched ts1 st1 = run_tasks L get (\<lambda>n. 0) ts1 st1" .
    moreover have "run_tasks L get sched tasks st = run_tasks L get sched ts1 st1"
      using one r by (subst run_tasks.simps) simp
    moreover have "run_tasks L get (\<lambda>n. 0) tasks st = run_tasks L get (\<lambda>n. 0) ts1 st1"
      using one r by (subst run_tasks.simps) simp
    ultimately show ?thesis by simp
  qed
qed

lemma narrow_call_sched:
  assumes "narrow_call L get css cssUrl depth st"
  shows "inlineCssImports L get sched css cssUrl depth st
           = inlineCssImports L get (\<lambda>n. 0) css cssUrl depth st"
proof -
  obtain tasks fallbacks st1 where s: "start_call L css cssUrl depth st = (tasks, fallbacks, st1)"
    by (cases "start_call L css cssUrl depth st")
  then have "narrow L get tasks st1" using assms by (simp add: narrow_call_def)
  from narrow_run [OF this, of sched] show ?thesis using s by (simp add: inlineCssImports_def)
qed

lemma inlineCssImports_depth_0: "inlineCssImports L get sched css cssUrl 0 st = (css, st)"
  by (simp add: inlineCssImports_def start_call_def run_tasks.simps pending_count_def apply_results_def)

lemma settle_depth_0:
  "settle L get raw a 0 st =
     (case fetchText get a of
        Inl e \<Rightarrow> (Failed raw a e, st)
      | Inr f \<Rightarrow>
          (Loaded raw (finalUrl f)
             (fst (rewriteCssUrlsToAbs L (payload f) (finalUrl f) (cssAssets st))) [] [],
           st\<lparr>cssAssets := snd (rewriteCssUrlsToAbs L (payload f) (finalUrl f) (cssAssets st))\<rparr>))"
  by (simp add: settle_def start_call_def case_prod_unfold Let_def split: sum.splits)

lemma chain_linked:
  "collectCssAndAssets style_lib style_net sched [''https://x.test/c0.css''] [] =
     (chain_linked_css,
      \<lparr>visited = [''https://x.test/c1.css'', ''https://x.test/c2.css''],
       cssAssets = [''https://x.test/c1.css'', ''https://x.test/c2.css'', ''https://x.test/c3.css''],
       requests = [Linked ''https://x.test/c0.css'', Imported ''https://x.test/c1.css'',
                   Imported ''https://x.test/c2.css''],
       clock = 2\<rparr>)"
proof -
  let ?stA = "\<lparr>visited = [], cssAssets = [''https://x.test/c1.css''],
               requests = [Linked ''https://x.test/c0.css''], clock = 0\<rparr>"
  have f1: "fetchText style_net ''https://x.test/c0.css'' =
      Inr \<lparr>payload = ''@import url(c1.css); .c0{}'', finalUrl = ''https://x.test/c0.css'',
           contentType = ''text/css''\<rparr>"
    by code_simp
  have f2: "css_like ''text/css''" by code_simp
  have f3: "rewriteCssUrlsToAbs style_lib ''@import url(c1.css); .c0{}'' ''https://x.test/c0.css'' []
      = (''@import url(https://x.test/c1.css); .c0{}'', [''https://x.test/c1.css''])"
    by code_simp
  have n: "narrow_call style_lib style_net ''@import url(https://x.test/c1.css); .c0{}''
             ''https://x.test/c0.css'' 2 ?stA"
    by code_simp
  have z: "inlineCssImports style_lib style_net (\<lambda>n. 0) ''@import url(https://x.test/c1.css); .c0{}''
             ''https://x.test/c0.css'' 2 ?stA =
      (''/* @import inlined from https://x.test/c1.css */'' @ [newline] @
       ''/* @import inlined from https://x.test/c2.css */'' @ [newline] @
       ''@import url(https://x.test/c3.css); .c2{}'' @ [newline] @
       ''/* end import */ .c1{}'' @ [newline] @ ''/* end import */ .c0{}'',
       \<lparr>visited = [''https://x.test/c1.css'', ''https://x.test/c2.css''],
        cssAssets = [''https://x.test/c1.css'', ''https://x.test/c2.css'', ''https://x.test/c3.css''],
        requests = [Linked ''https://x.test/c0.css'', Imported ''https://x.test/c1.css'',
                    Imported ''https://x.test/c2.css''],
        clock = 2\<rparr>)"
    by code_simp
  note f4 = narrow_call_sched [OF n, of sched, unfolded z]
  show ?thesis
    by (simp add: collectCssAndAssets_def linked_part_def f1 f2 f3 f4 chain_linked_css_def)
qed

lemma chain_inline:
  "collectCssAndAssets style_lib style_net sched []
     [(''@import url(c1.css); p{}'', ''https://x.test/c0.css'')] =
     (chain_inline_css,
      \<lparr>visited = [''https://x.test/c1.css''],
       cssAssets = [''https://x.test/c1.css'', ''https://x.test/c2.css''],
       requests = [Imported ''https://x.test/c1.css''],
       clock = 1\<rparr>)"
proof -
  let ?stA = "\<lparr>visited = [], cssAssets = [''https://x.test/c1.css''], requests = [], clock = 0\<rparr>"
  have f3: "rewriteCssUrlsToAbs style_lib ''@import url(c1.css); p{}'' ''https://x.test/c0.css'' []
      = (''@import url(https://x.test/c1.css); p{}'', [''https://x.test/c1.css''])"
    by code_simp
  have n: "narrow_call style_lib style_net ''@import url(https://x.test/c1.css); p{}''
             ''https://x.test/c0.css'' 1 ?stA"
    by code_simp
  have z: "inlineCssImports style_lib style_net (\<lambda>n. 0) ''@import url(https://x.test/c1.css); p{}''
             ''https://x.test/c0.css'' 1 ?stA =
      (''/* @import inlined from https://x.test/c1.css */'' @ [newline] @
       ''@import url(https://x.test/c2.css); .c1{}'' @ [newline] @ ''/* end import */ p{}'',
       \<lparr>visited = [''https://x.test/c1.css''],
        cssAssets = [''https://x.test/c1.css'', ''https://x.test/c2.css''],
        requests = [Imported ''https://x.test/c1.css''],
        clock = 1\<rparr>)"
    by code_simp
  note f4 = narrow_call_sched [OF n, of sched, unfolded z]
  show ?thesis
    by (simp add: collectCssAndAssets_def inline_part_def f3 f4 chain_inline_css_def
          del: One_nat_def)
qed

lemma within_all_iff: "within_all n ts \<longleftrightarrow> (\<forall>t \<in> set ts. within n t)"
  by (induction ts) auto

lemma import_loop_within:
  "import_loop L cssUrl d ps st = (tasks, fallbacks, st') \<Longrightarrow> within_all (Suc d) tasks"
proof (induction L cssUrl d ps st arbitrary: tasks fallbacks st' rule: import_loop.induct)
  case (1 L cssUrl d st)
  then show ?case by simp
next
  case (2 L cssUrl d x ps st)
  then show ?case by simp
next
  case (3 L cssUrl d raw c ps st)
  show ?case
  proof (cases "url_resolve L (cap_get c 1) cssUrl")
    case None
    then show ?thesis using 3 by (auto simp: Let_def split: prod.splits)
  next
    case (Some a)
    then show ?thesis using 3 by (auto simp: Let_def split: prod.splits if_splits)
  qed
qed

lemma start_call_within:
  assumes "start_call L css cssUrl d st = (tasks, fallbacks, st')"
  shows "within_all d tasks \<and> (d = 0 \<longrightarrow> tasks = [] \<and> fallbacks = [])"
proof (cases "d = 0")
  case True
  then show ?thesis using assms by (simp add: start_call_def)
next
  case False
  then have "import_loop L cssUrl (d - 1) (scan IMPORT_RE css) st = (tasks, fallbacks, st')"
    using assms by (simp add: start_call_def)
  from import_loop_within [OF this] show ?thesis using False by simp
qed

lemma settle_within: "within (Suc d) (fst (settle L get raw absUrl d st))"
proof (cases "fetchText get absUrl")
  case (Inl e)
  then show ?thesis by (simp add: settle_def)
next
  case (Inr f)
  obtain rewritten collect where
    r: "rewriteCssUrlsToAbs L (payload f) (finalUrl f) (cssAssets st) = (rewritten, collect)"
    by (cases "rewriteCssUrlsToAbs L (payload f) (finalUrl f) (cssAssets st)")
  obtain tasks fallbacks st' where
    s: "start_call L rewritten (finalUrl f) d (st\<lparr>cssAssets := collect\<rparr>) = (tasks, fallbacks, st')"
    by (cases "start_call L rewritten (finalUrl f) d (st\<lparr>cssAssets := collect\<rparr>)")
  show ?thesis using Inr r s start_call_within [OF s] by (simp add: settle_def)
qed

lemma resume_within:
  "within n t \<Longrightarrow> within n (fst (resume_task L get k t st))"
  "within_all n ts \<Longrightarrow> within_all n (fst (resume_tasks L get k ts st))"
proof (induction L get k t st and L get k ts st arbitrary: n and n
       rule: resume_task_resume_tasks.induct)
  case (1 L get k raw absUrl d st)
  then show ?case using settle_within [of d L get raw absUrl st] by simp
next
  case (2 L get k raw absUrl e st)
  then show ?case by simp
next
  case (3 L get k raw final css tasks fallbacks st)
  show ?case
  proof (cases "n = 1")
    case True
    then show ?thesis using "3.prems" by simp
  next
    case False
    then have "within_all (n - 1) tasks" and "0 < n" using "3.prems" by simp_all
    from "3.IH" [OF this(1)] show ?thesis
      using False \<open>0 < n\<close> by (simp add: case_prod_unfold Let_def)
  qed
next
  case (4 L get k st)
  then show ?case by simp
next
  case (5 L get k t ts st)
  show ?case
  proof (cases "k < size (pending_depths t)")
    case True
    have "within n t" and "within_all n ts" using "5.prems" by simp_all
    from "5.IH"(1) [OF True this(1)] this(2) show ?thesis
      using True by (simp add: case_prod_unfold Let_def)
  next
    case False
    have "within n t" and "within_all n ts" using "5.prems" by simp_all
    from "5.IH"(2) [OF False this(2)] this(1) show ?thesis
      using False by (simp add: case_prod_unfold Let_def)
  qed
qed

lemma run_tasks_within:
  "within_all n tasks \<Longrightarrow>
   within_all n (fst (run_tasks L get sched tasks st)) \<and>
   pending_count (fst (run_tasks L get sched tasks st)) = 0"
proof (induction L get sched tasks st rule: run_tasks.induct)
  case (1 L get sched tasks st)
  show ?case
  proof (cases "pending_count tasks = 0")
    case True
    then show ?thesis using "1.prems" by (subst run_tasks.simps, subst run_tasks.simps) simp
  next
    case False
    let ?k = "sched (clock st) mod pending_count tasks"
    obtain ts1 st1 where r: "resume_tasks L get ?k tasks (st\<lparr>clock := Suc (clock st)\<rparr>) = (ts1, st1)"
      by (cases "resume_tasks L get ?k tasks (st\<lparr>clock := Suc (clock st)\<rparr>)")
    have "within_all n ts1"
      using resume_within(2) [OF "1.prems", of L get ?k "st\<lparr>clock := Suc (clock st)\<rparr>"] r by simp
    from "1.IH" [OF False refl refl r [symmetric] this]
    have "within_all n (fst (run_tasks L get sched ts1 st1)) \<and>
          pending_count (fst (run_tasks L get sched ts1 st1)) = 0" .
    moreover have "run_tasks L get sched tasks st = run_tasks L get sched ts1 st1"
      using False r by (subst run_tasks.simps) simp
    ultimately show ?thesis by simp
  qed
qed

lemma import_tree_within:
  "within_all depth (import_tree L get sched css cssUrl depth st) \<and>
   pending_count (import_tree L get sched css cssUrl depth st) = 0"
proof -
  obtain tasks fallbacks st1 where s: "start_call L css cssUrl depth st = (tasks, fallbacks, st1)"
    by (cases "start_call L css cssUrl depth st")
  have "within_all depth tasks" using start_call_within [OF s] by simp
  from run_tasks_within [OF this, of L get sched st1] show ?thesis
    using s by (simp add: import_tree_def)
qed

lemma inlineCssImports_tree:
  "fst (inlineCssImports L get sched css cssUrl depth st) =
     apply_results css
       (map task_result (import_tree L get sched css cssUrl depth st) @
        fst (snd (start_call L css cssUrl depth st)))"
  by (simp add: inlineCssImports_def import_tree_def case_prod_unfold Let_def)

lemma linked_part_depth_2:
  "linked_part L get sched cssUrl st =
     (case fetchText get cssUrl of
        Inl e \<Rightarrow> (''/* Failed CSS '' @ cssUrl @ '': '' @ message e @ '' */'',
                  st\<lparr>requests := requests st @ [Linked cssUrl]\<rparr>)
      | Inr f \<Rightarrow>
          if \<not> css_like (contentType f) \<and> \<not> ends_with ''.css'' (finalUrl f)
          then (''/* Skipped non-CSS '' @ finalUrl f @ '' */'',
                st\<lparr>requests := requests st @ [Linked cssUrl]\<rparr>)
          else (''/* ===== CSS from '' @ finalUrl f @ '' ===== */'' @ [newline] @
                fst (inlineCssImports L get sched
                       (fst (rewriteCssUrlsToAbs L (payload f) (finalUrl f) (cssAssets st)))
                       (finalUrl f) 2
                       (st\<lparr>requests := requests st @ [Linked cssUrl],
                           cssAssets := snd (rewriteCssUrlsToAbs L (payload f) (finalUrl f) (cssAssets st))\<rparr>)) @
                [newline],
                snd (inlineCssImports L get sched
                       (fst (rewriteCssUrlsToAbs L (payload f) (finalUrl f) (cssAssets st)))
                       (finalUrl f) 2
                       (st\<lparr>requests := requests st @ [Linked cssUrl],
                           cssAssets := snd (rewriteCssUrlsToAbs L (payload f) (finalUrl f) (cssAssets st))\<rparr>))))"
  by (simp add: linked_part_def Let_def case_prod_unfold split: sum.splits)

lemma inline_part_depth_1:
  "inline_part L get sched (css, baseUrl) st =
     (''/* ===== Inline <style> from '' @ baseUrl @ '' ===== */'' @ [newline] @
      fst (inlineCssImports L get sched (fst (rewriteCssUrlsToAbs L css baseUrl (cssAssets st)))
             baseUrl 1 (st\<lparr>cssAssets := snd (rewriteCssUrlsToAbs L css baseUrl (cssAssets st))\<rparr>)) @
      [newline],
      snd (inlineCssImports L get sched (fst (rewriteCssUrlsToAbs L css baseUrl (cssAssets st)))
             baseUrl 1 (st\<lparr>cssAssets := snd (rewriteCssUrlsToAbs L css baseUrl (cssAssets st))\<rparr>)))"
  by (simp add: inline_part_def Let_def case_prod_unfold del: One_nat_def)

lemma dollar_chain:
  "collectCssAndAssets style_lib dollar_net sched [''https://x.test/c0.css''] [] =
     (dollar_chain_css,
      \<lparr>visited = [''https://x.test/c1.css'', ''https://x.test/c2.css''],
       cssAssets = [''https://x.test/c1.css'', ''https://x.test/c2.css'', ''https://x.test/c3.css''],
       requests = [Linked ''https://x.test/c0.css'', Imported ''https://x.test/c1.css'',
                   Imported ''https://x.test/c2.css''],
       clock = 2\<rparr>)"
proof -
  let ?stA = "\<lparr>visited = [], cssAssets = [''https://x.test/c1.css''],
               requests = [Linked ''https://x.test/c0.css''], clock = 0\<rparr>"
  have f1: "fetchText dollar_net ''https://x.test/c0.css'' =
      Inr \<lparr>payload = ''@import url(c1.css); .c0{}'', finalUrl = ''https://x.test/c0.css'',
           contentType = ''text/css''\<rparr>"
    by code_simp
  have f2: "css_like ''text/css''" by code_simp
  have f3: "rewriteCssUrlsToAbs style_lib ''@import url(c1.css); .c0{}'' ''https://x.test/c0.css'' []
      = (''@import url(https://x.test/c1.css); .c0{}'', [''https://x.test/c1.css''])"
    by code_simp
  have n: "narrow_call style_lib dollar_net ''@import url(https://x.test/c1.css); .c0{}''
             ''https://x.test/c0.css'' 2 ?stA"
    by code_simp
  have z: "inlineCssImports style_lib dollar_net (\<lambda>n. 0) ''@import url(https://x.test/c1.css); .c0{}''
             ''https://x.test/c0.css'' 2 ?stA =
      (''/* @import inlined from https://x.test/c1.css */'' @ [newline] @
       ''/* @import inlined from https://x.test/c2.css */'' @ [newline] @
       ''@import url(https://x.test/c3.css); @import url(https://x.test/c2.css); .c2{}'' @ [newline] @
       ''/* end import */ .c1{}'' @ [newline] @ ''/* end import */ .c0{}'',
       \<lparr>visited = [''https://x.test/c1.css'', ''https://x.test/c2.css''],
        cssAssets = [''https://x.test/c1.css'', ''https://x.test/c2.css'', ''https://x.test/c3.css''],
        requests = [Linked ''https://x.test/c0.css'', Imported ''https://x.test/c1.css'',
                    Imported ''https://x.test/c2.css''],
        clock = 2\<rparr>)"
    by code_simp
  note f4 = narrow_call_sched [OF n, of sched, unfolded z]
  show ?thesis
    by (simp add: collectCssAndAssets_def linked_part_def f1 f2 f3 f4 dollar_chain_css_def)
qed

text \<open>
  C5. The depth bound itself holds of the code, for every input and every order of
  arrival: a call with depth 0 returns the text as it is and requests nothing; the
  finished tasks of a call with depth \<open>d\<close> are nested at most \<open>d\<close> deep, and a stylesheet
  fetched at the last level is paired with its own text, only the \<^verbatim>\<open>url(...)\<close> tokens
  rewritten and its imports untouched; a linked stylesheet is inlined with depth 2 and an
  inline block with depth 1. For the chain of three imports \<^verbatim>\<open>c0.css\<close>, \<^verbatim>\<open>c1.css\<close>,
  \<^verbatim>\<open>c2.css\<close>, \<^verbatim>\<open>c3.css\<close> entered from the linked \<^verbatim>\<open>c0.css\<close>, \<^verbatim>\<open>c3.css\<close> is never requested and
  the consolidated CSS holds exactly one import, that of \<^verbatim>\<open>c3.css\<close>; entered from an inline
  block, the one import left is that of \<^verbatim>\<open>c2.css\<close>.

  The count of the imports left does not hold for every chain. The replacements are put
  into the text with \<^verbatim>\<open>out.replace(r.raw, r.rep)\<close>, which reads \<^verbatim>\<open>$&\<close> in the replacement as
  the matched text. When the text of \<^verbatim>\<open>c2.css\<close> holds \<^verbatim>\<open>$&\<close>, inserting it into the text of
  \<^verbatim>\<open>c1.css\<close> writes the import of \<^verbatim>\<open>c2.css\<close> a second time: the same chain leaves two
  imports, whatever the schedule.
\<close>

theorem import_depth_bound:
  "inlineCssImports L get sched css cssUrl 0 st = (css, st) \<and>
   settle L get raw a 0 st =
     (case fetchText get a of
        Inl e \<Rightarrow> (Failed raw a e, st)
      | Inr f \<Rightarrow>
          (Loaded raw (finalUrl f)
             (fst (rewriteCssUrlsToAbs L (payload f) (finalUrl f) (cssAssets st))) [] [],
           st\<lparr>cssAssets := snd (rewriteCssUrlsToAbs L (payload f) (finalUrl f) (cssAssets st))\<rparr>)) \<and>
   task_result (Loaded raw final css [] []) =
     (raw, ''/* @import inlined from '' @ final @ '' */'' @ [newline] @ css @ [newline] @
           ''/* end import */'') \<and>
   within_all depth (import_tree L get sched css cssUrl depth st) \<and>
   pending_count (import_tree L get sched css cssUrl depth st) = 0 \<and>
   fst (inlineCssImports L get sched css cssUrl depth st) =
     apply_results css
       (map task_result (import_tree L get sched css cssUrl depth st) @
        fst (snd (start_call L css cssUrl depth st))) \<and>
   linked_part L get sched linkedUrl st =
     (case fetchText get linkedUrl of
        Inl e \<Rightarrow> (''/* Failed CSS '' @ linkedUrl @ '': '' @ message e @ '' */'',
                  st\<lparr>requests := requests st @ [Linked linkedUrl]\<rparr>)
      | Inr f \<Rightarrow>
          if \<not> css_like (contentType f) \<and> \<not> ends_with ''.css'' (finalUrl f)
          then (''/* Skipped non-CSS '' @ finalUrl f @ '' */'',
                st\<lparr>requests := requests st @ [Linked linkedUrl]\<rparr>)
          else (''/* ===== CSS from '' @ finalUrl f @ '' ===== */'' @ [newline] @
                fst (inlineCssImports L get sched
                       (fst (rewriteCssUrlsToAbs L (payload f) (finalUrl f) (cssAssets st)))
                       (finalUrl f) 2
                       (st\<lparr>requests := requests st @ [Linked linkedUrl],
                           cssAssets := snd (rewriteCssUrlsToAbs L (payload f) (finalUrl f) (cssAssets st))\<rparr>)) @
                [newline],
                snd (inlineCssImports L get sched
                       (fst (rewriteCssUrlsToAbs L (payload f) (finalUrl f) (cssAssets st)))
                       (finalUrl f) 2
                       (st\<lparr>requests := requests st @ [Linked linkedUrl],
                           cssAssets := snd (rewriteCssUrlsToAbs L (payload f) (finalUrl f) (cssAssets st))\<rparr>)))) \<and>
   inline_part L get sched (block, baseUrl) st =
     (''/* ===== Inline <style> from '' @ baseUrl @ '' ===== */'' @ [newline] @
      fst (inlineCssImports L get sched (fst (rewriteCssUrlsToAbs L block baseUrl (cssAssets st)))
             baseUrl 1 (st\<lparr>cssAssets := snd (rewriteCssUrlsToAbs L block baseUrl (cssAssets st))\<rparr>)) @
      [newline],
      snd (inlineCssImports L get sched (fst (rewriteCssUrlsToAbs L block baseUrl (cssAssets st)))
             baseUrl 1 (st\<lparr>cssAssets := snd (rewriteCssUrlsToAbs L block baseUrl (cssAssets st))\<rparr>))) \<and>
   collectCssAndAssets style_lib style_net sched [''https://x.test/c0.css''] [] =
     (chain_linked_css,
      \<lparr>visited = [''https://x.test/c1.css'', ''https://x.test/c2.css''],
       cssAssets = [''https://x.test/c1.css'', ''https://x.test/c2.css'', ''https://x.test/c3.css''],
       requests = [Linked ''https://x.test/c0.css'', Imported ''https://x.test/c1.css'',
                   Imported ''https://x.test/c2.css''],
       clock = 2\<rparr>) \<and>
   count_sub ''@import url('' chain_linked_css = 1 \<and>
   count_sub ''@import url(https://x.test/c3.css);'' chain_linked_css = 1 \<and>
   collectCssAndAssets style_lib style_net sched []
     [(''@import url(c1.css); p{}'', ''https://x.test/c0.css'')] =
     (chain_inline_css,
      \<lparr>visited = [''https://x.test/c1.css''],
       cssAssets = [''https://x.test/c1.css'', ''https://x.test/c2.css''],
       requests = [Imported ''https://x.test/c1.css''],
       clock = 1\<rparr>) \<and>
   count_sub ''@import url('' chain_inline_css = 1 \<and>
   count_sub ''@import url(https://x.test/c2.css);'' chain_inline_css = 1 \<and>
   collectCssAndAssets style_lib dollar_net sched [''https://x.test/c0.css''] [] =
     (dollar_chain_css,
      \<lparr>visited = [''https://x.test/c1.css'', ''https://x.test/c2.css''],
       cssAssets = [''https://x.test/c1.css'', ''https://x.test/c2.css'', ''https://x.test/c3.css''],
       requests = [Linked ''https://x.test/c0.css'', Imported ''https://x.test/c1.css'',
                   Imported ''https://x.test/c2.css''],
       clock = 2\<rparr>) \<and>
   count_sub ''@import url('' dollar_chain_css = 2"
proof -
  have c1: "count_sub ''@import url('' chain_linked_css = 1" by code_simp
  have c2: "count_sub ''@import url(https://x.test/c3.css);'' chain_linked_css = 1" by code_simp
  have c3: "count_sub ''@import url('' chain_inline_css = 1" by code_simp
  have c4: "count_sub ''@import url(https://x.test/c2.css);'' chain_inline_css = 1" by code_simp
  have c5: "count_sub ''@import url('' dollar_chain_css = 2" by code_simp
  have t: "task_result (Loaded raw final css [] []) =
     (raw, ''/* @import inlined from '' @ final @ '' */'' @ [newline] @ css @ [newline] @
           ''/* end import */'')"
    by simp
  note w = import_tree_within [of depth L get sched css cssUrl st]
  show ?thesis
    using inlineCssImports_depth_0 [of L get sched css cssUrl st]
      settle_depth_0 [of L get raw a st] t w [THEN conjunct1] w [THEN conjunct2]
      inlineCssImports_tree [of L get sched css cssUrl depth st]
      linked_part_depth_2 [of L get sched linkedUrl st]
      inline_part_depth_1 [of L get sched block baseUrl st]
      chain_linked [of sched] c1 c2 chain_inline [of sched] c3 c4 dollar_chain [of sched] c5
    by (intro conjI) assumption+
qed

section \<open>Properties of the asset discoverer\<close>

lemma parseNoscriptAssets_result:
  "parseNoscriptAssets C L baseUrl els assets =
     (if \<exists>el \<in> set els. cheerio_html C (children_of el) \<noteq> []
      then Inl (ReferenceError ''_$$'') else Inr assets)"
  by (induction els) (auto simp: Let_def)

text \<open>
  C2 does not hold of the code. Without a \<^verbatim>\<open>noscript\<close> element that has content, the
  discovery pass returns the assets of the four attribute passes, each candidate
  resolved inside its own \<^verbatim>\<open>try\<close>. With one, it throws the \<^verbatim>\<open>ReferenceError\<close> of the
  undeclared \<^verbatim>\<open>_$$\<close> and returns nothing, as on the example page, where the image inside
  \<^verbatim>\<open>noscript\<close> is never discovered.
\<close>

theorem collectHtmlAssetUrls_noscript_throws:
  "collectHtmlAssetUrls C L html baseUrl =
     (if \<exists>el \<in> set (select (\<lambda>tag a. tag = ''noscript'') (cheerio_load C html)).
            cheerio_html C (children_of el) \<noteq> []
      then Inl (ReferenceError ''_$$'')
      else Inr (cheerio_load C html, html_assets_before_noscript L baseUrl (cheerio_load C html))) \<and>
   collectHtmlAssetUrls page_cheerio page_lib page_html ''https://x.test/p''
     = Inl (ReferenceError ''_$$'') \<and>
   collectHtmlAssetUrls page_cheerio page_lib plain_html ''https://x.test/p''
     = Inr (plain_doc, [''https://x.test/a.png''])"
proof -
  have a: "collectHtmlAssetUrls page_cheerio page_lib page_html ''https://x.test/p''
     = Inl (ReferenceError ''_$$'')"
    by code_simp
  have b: "collectHtmlAssetUrls page_cheerio page_lib plain_html ''https://x.test/p''
     = Inr (plain_doc, [''https://x.test/a.png''])"
    by code_simp
  show ?thesis
    using a b by (simp add: collectHtmlAssetUrls_def parseNoscriptAssets_result Let_def)
qed

section \<open>Properties of the HTML rewrite\<close>

lemma elems_map_attrs: "elems (map_attrs f n) = map (map_attrs f) (elems n)"
  by (induction n) (auto simp: map_concat cong: map_cong)

lemma all_elems_map_attrs: "all_elems (map (map_attrs f) doc) = map (map_attrs f) (all_elems doc)"
  by (simp add: all_elems_def map_concat elems_map_attrs comp_def)

lemma matches_tag_map_attrs: "matches (\<lambda>tag a. T tag) (map_attrs f e) = matches (\<lambda>tag a. T tag) e"
  by (cases e) auto

lemma children_map_attrs: "children_of (map_attrs f e) = map (map_attrs f) (children_of e)"
  by (cases e) auto

lemma leaves_map_attrs:
  assumes "styles_are_leaves doc"
  shows "styles_are_leaves (map (map_attrs f) doc)"
  unfolding styles_are_leaves_def
proof (intro ballI impI)
  fix e
  assume e: "e \<in> set (all_elems (map (map_attrs f) doc))"
    and m: "matches (\<lambda>tag a. tag = ''link'' \<or> tag = ''style'') e"
  from e obtain e0 where e0: "e0 \<in> set (all_elems doc)" and eq: "e = map_attrs f e0"
    by (auto simp: all_elems_map_attrs)
  have "matches (\<lambda>tag a. tag = ''link'' \<or> tag = ''style'') e0"
    using m eq matches_tag_map_attrs [of "\<lambda>tag. tag = ''link'' \<or> tag = ''style''" f e0] by simp
  then have "all_elems (children_of e0) = []"
    using assms e0 by (auto simp: styles_are_leaves_def)
  then show "all_elems (children_of e) = []"
    by (simp add: eq children_map_attrs all_elems_map_attrs)
qed

lemma passes_leaves:
  "styles_are_leaves doc \<Longrightarrow> styles_are_leaves (fold (\<lambda>f d. map (map_attrs f) d) fs doc)"
  by (induction fs arbitrary: doc) (simp_all add: leaves_map_attrs)

lemma prune_twice:
  "concat (map (prune s2) (prune s1 n)) = prune (\<lambda>tag a. s1 tag a \<or> s2 tag a) n"
proof (induction n)
  case (Text t)
  then show ?case by simp
next
  case (Element tag a cs)
  have "concat (map (prune s2) (concat (map (prune s1) cs)))
          = concat (map (prune (\<lambda>tag a. s1 tag a \<or> s2 tag a)) cs)"
    using Element by (induction cs) auto
  then show ?case by simp
qed

lemma remove_twice:
  "remove_all s2 (remove_all s1 doc) = remove_all (\<lambda>tag a. s1 tag a \<or> s2 tag a) doc"
  unfolding remove_all_def by (induction doc) (auto simp: prune_twice)

lemma prune_none_left: "\<forall>e \<in> set (concat (map elems (prune S n))). \<not> matches S e"
proof (induction n)
  case (Text t)
  then show ?case by simp
next
  case (Element tag a cs)
  have "\<forall>e \<in> set (concat (map elems (concat (map (prune S) cs)))). \<not> matches S e"
    using Element by (induction cs) auto
  then show ?case by auto
qed

lemma remove_none_left: "\<forall>e \<in> set (all_elems (remove_all S doc)). \<not> matches S e"
  unfolding all_elems_def remove_all_def
  using prune_none_left [of S] by (induction doc) auto

lemma elems_subset: "c \<in> set cs \<Longrightarrow> set (elems c) \<subseteq> set (concat (map elems cs))"
  by auto


lemma prune_keeps:
  assumes sp: "\<And>tag a. S tag a \<Longrightarrow> \<not> P tag a"
  shows "(\<forall>e \<in> set (elems n). matches S e \<longrightarrow> all_elems (children_of e) = []) \<Longrightarrow>
         length (filter (matches P) (concat (map elems (prune S n))))
           = length (filter (matches P) (elems n))"
proof (induction n)
  case (Text t)
  then show ?case by simp
next
  case (Element tag a cs)
  show ?case
  proof (cases "S tag a")
    case True
    have "Element tag a cs \<in> set (elems (Element tag a cs))" by simp
    moreover have "matches S (Element tag a cs)" using True by simp
    ultimately have "all_elems (children_of (Element tag a cs)) = []"
      using Element.prems by blast
    then have e: "concat (map elems cs) = []" by (simp only: children_of.simps all_elems_def)
    have "\<not> P tag a" using True by (rule sp)
    then show ?thesis using True by (simp only: prune.simps elems.simps e if_True matches.simps
          list.map concat.simps filter.simps if_False)
  next
    case False
    have kid: "length (filter (matches P) (concat (map elems (prune S c))))
              = length (filter (matches P) (elems c))" if c: "c \<in> set cs" for c
    proof (rule Element.IH [OF c], intro ballI impI)
      fix e assume "e \<in> set (elems c)" and m: "matches S e"
      then have "e \<in> set (elems (Element tag a cs))" using c by auto
      then show "all_elems (children_of e) = []" using Element.prems m by blast
    qed
    have "length (filter (matches P) (concat (map elems (concat (map (prune S) ds)))))
            = length (filter (matches P) (concat (map elems ds)))" if "set ds \<subseteq> set cs" for ds
      using that
    proof (induction ds)
      case Nil
      then show ?case by simp
    next
      case (Cons d ds)
      then have "d \<in> set cs" and "set ds \<subseteq> set cs" by simp_all
      then show ?case using kid [of d] Cons.IH by simp
    qed
    then have "length (filter (matches P) (concat (map elems (concat (map (prune S) cs)))))
            = length (filter (matches P) (concat (map elems cs)))" by simp
    then show ?thesis using False by simp
  qed
qed

lemma remove_keeps:
  assumes leaf: "\<forall>e \<in> set (all_elems doc). matches S e \<longrightarrow> all_elems (children_of e) = []"
      and sp: "\<And>tag a. S tag a \<Longrightarrow> \<not> P tag a"
  shows "length (filter (matches P) (all_elems (remove_all S doc)))
           = length (filter (matches P) (all_elems doc))"
proof -
  have kid: "length (filter (matches P) (concat (map elems (prune S n))))
              = length (filter (matches P) (elems n))" if n: "n \<in> set doc" for n
  proof (rule prune_keeps [OF sp], assumption, intro ballI impI)
    fix e assume "e \<in> set (elems n)" and m: "matches S e"
    then have "e \<in> set (all_elems doc)" using n by (auto simp: all_elems_def)
    then show "all_elems (children_of e) = []" using leaf m by blast
  qed
  have "length (filter (matches P) (concat (map elems (concat (map (prune S) ds)))))
          = length (filter (matches P) (concat (map elems ds)))" if "set ds \<subseteq> set doc" for ds
    using that
  proof (induction ds)
    case Nil
    then show ?case by simp
  next
    case (Cons d ds)
    then have "d \<in> set doc" and "set ds \<subseteq> set doc" by simp_all
    then show ?case using kid [of d] Cons.IH by simp
  qed
  then show ?thesis by (simp add: all_elems_def remove_all_def)
qed

lemma append_link_elems:
  assumes none: "\<forall>e \<in> set (elems n). \<not> matches P e"
      and new: "filter (matches P) (concat (map elems frag)) = new"
  shows "filter (matches P) (elems (map_children is_head (\<lambda>cs. cs @ frag) n))
           = concat (replicate (length (filter (matches is_head) (elems n))) new)"
  using none
proof (induction n)
  case (Text t)
  then show ?case by simp
next
  case (Element tag a cs)
  let ?mc = "map_children is_head (\<lambda>cs. cs @ frag)"
  have kid: "filter (matches P) (elems (?mc c))
            = concat (replicate (length (filter (matches is_head) (elems c))) new)"
    if c: "c \<in> set cs" for c
  proof (rule Element.IH [OF c], intro ballI)
    fix e assume "e \<in> set (elems c)"
    then have "e \<in> set (elems (Element tag a cs))" using c by auto
    then show "\<not> matches P e" using Element.prems by blast
  qed
  have "filter (matches P) (concat (map elems (map ?mc ds)))
          = concat (replicate (length (filter (matches is_head) (concat (map elems ds)))) new)"
    if "set ds \<subseteq> set cs" for ds
    using that
  proof (induction ds)
    case Nil
    then show ?case by simp
  next
    case (Cons d ds)
    then have "d \<in> set cs" and "set ds \<subseteq> set cs" by simp_all
    then show ?case using kid [of d] Cons.IH by (simp add: replicate_add)
  qed
  then have kids: "filter (matches P) (concat (map elems (map ?mc cs)))
          = concat (replicate (length (filter (matches is_head) (concat (map elems cs)))) new)"
    by simp
  have "Element tag a cs \<in> set (elems (Element tag a cs))" by simp
  then have "\<not> matches P (Element tag a cs)" using Element.prems by blast
  then have root: "\<not> P tag a" by simp
  have snoc: "concat (replicate k new) @ new = concat (replicate (Suc k) new)" for k
    by (induction k) simp_all
  show ?case
  proof (cases "is_head tag a")
    case True
    have "filter (matches P) (elems (?mc (Element tag a cs)))
            = filter (matches P) (concat (map elems (map ?mc cs))) @ new"
      using True root new by simp
    also have "\<dots> = concat (replicate (Suc (length (filter (matches is_head) (concat (map elems cs))))) new)"
      unfolding kids by (rule snoc)
    also have "Suc (length (filter (matches is_head) (concat (map elems cs))))
                 = length (filter (matches is_head) (elems (Element tag a cs)))"
      using True by simp
    finally show ?thesis .
  next
    case False
    then show ?thesis using kids root by simp
  qed
qed

lemma append_link_select:
  assumes none: "select P doc = []"
      and new: "select P frag = new"
  shows "select P (map (map_children is_head (\<lambda>cs. cs @ frag)) doc)
           = concat (replicate (length (select is_head doc)) new)"
proof -
  have new': "filter (matches P) (concat (map elems frag)) = new"
    using new by (simp add: select_def all_elems_def)
  have "filter (matches P) (concat (map elems (map (map_children is_head (\<lambda>cs. cs @ frag)) ds)))
          = concat (replicate (length (filter (matches is_head) (concat (map elems ds)))) new)"
    if "set ds \<subseteq> set doc" for ds
    using that
  proof (induction ds)
    case Nil
    then show ?case by simp
  next
    case (Cons d ds)
    then have d: "d \<in> set doc" and "set ds \<subseteq> set doc" by simp_all
    have "\<forall>e \<in> set (elems d). \<not> matches P e"
    proof
      fix e assume "e \<in> set (elems d)"
      then have "e \<in> set (all_elems doc)" using d by (auto simp: all_elems_def)
      then show "\<not> matches P e" using none by (auto simp: select_def filter_empty_conv)
    qed
    from append_link_elems [OF this new'] show ?case
      using Cons.IH \<open>set ds \<subseteq> set doc\<close> by (simp add: replicate_add)
  qed
  then show ?thesis by (simp add: select_def all_elems_def)
qed

lemma select_removed: "select S (remove_all S doc) = []"
  using remove_none_left [of S doc] by (simp add: select_def filter_empty_conv)

lemma select_removed_weaker:
  assumes "\<And>tag a. P tag a \<Longrightarrow> S tag a"
  shows "select P (remove_all S doc) = []"
proof -
  have "\<not> matches P e" if "e \<in> set (all_elems (remove_all S doc))" for e
  proof -
    have "\<not> matches S e" using remove_none_left [of S doc] that by blast
    then show ?thesis using assms by (cases e) auto
  qed
  then show ?thesis by (simp add: select_def filter_empty_conv)
qed

lemma refresh_styles_select:
  assumes leaf: "styles_are_leaves doc"
      and head: "select is_head doc \<noteq> []"
      and P: "\<And>tag a. P tag a \<Longrightarrow> stylesheet_link tag a \<or> is_style tag a"
  shows "select P (refresh_styles C doc)
           = concat (replicate (length (select is_head doc)) (select P (cheerio_fragment C link_markup)))"
proof -
  let ?S = "\<lambda>tag a. stylesheet_link tag a \<or> is_style tag a"
  let ?d2 = "remove_all ?S doc"
  have d2: "remove_all is_style (remove_all stylesheet_link doc) = ?d2"
    by (rule remove_twice)
  have leaf': "\<forall>e \<in> set (all_elems doc). matches ?S e \<longrightarrow> all_elems (children_of e) = []"
  proof (intro ballI impI)
    fix e assume e: "e \<in> set (all_elems doc)" and m: "matches ?S e"
    have "matches (\<lambda>tag a. tag = ''link'' \<or> tag = ''style'') e"
      using m by (cases e) (auto simp: stylesheet_link_def is_style_def)
    then show "all_elems (children_of e) = []"
      using leaf e by (simp add: styles_are_leaves_def)
  qed
  have "length (filter (matches is_head) (all_elems ?d2)) = length (filter (matches is_head) (all_elems doc))"
    by (rule remove_keeps [OF leaf']) (auto simp: stylesheet_link_def is_style_def is_head_def)
  then have heads: "length (select is_head ?d2) = length (select is_head doc)"
    by (simp add: select_def)
  then have nonempty: "select is_head ?d2 \<noteq> []" using head by auto
  have none: "select P ?d2 = []" by (rule select_removed_weaker) (rule P)
  have "refresh_styles C doc = map (map_children is_head (\<lambda>cs. cs @ cheerio_fragment C link_markup)) ?d2"
    using nonempty by (simp add: refresh_styles_def d2 Let_def)
  then show ?thesis using append_link_select [OF none refl] heads by simp
qed

lemma matches_map_attrs:
  assumes "\<And>tag a. P tag (f tag a) = P tag a"
  shows "matches P (map_attrs f e) = matches P e"
  using assms by (cases e) auto

lemma count_map_attrs:
  assumes "\<And>tag a. P tag (f tag a) = P tag a"
  shows "length (select P (map (map_attrs f) doc)) = length (select P doc)"
proof -
  have "matches P \<circ> map_attrs f = matches P"
    using matches_map_attrs [of P f, OF assms] by (simp add: fun_eq_iff)
  then show ?thesis
    by (simp add: select_def all_elems_map_attrs filter_map)
qed

lemma passes_count:
  assumes "\<And>f tag a. f \<in> set fs \<Longrightarrow> P tag (f tag a) = P tag a"
  shows "length (select P (fold (\<lambda>f d. map (map_attrs f) d) fs doc)) = length (select P doc)"
  using assms
proof (induction fs arbitrary: doc)
  case Nil
  then show ?case by simp
next
  case (Cons f fs)
  have "length (select P (fold (\<lambda>f d. map (map_attrs f) d) fs (map (map_attrs f) doc)))
          = length (select P (map (map_attrs f) doc))"
    by (rule Cons.IH) (simp add: Cons.prems)
  also have "\<dots> = length (select P doc)"
    by (rule count_map_attrs) (simp add: Cons.prems)
  finally show ?case by simp
qed

lemma append_count_elems:
  assumes new: "filter (matches P) (concat (map elems frag)) = []"
  shows "length (filter (matches P) (elems (map_children is_head (\<lambda>cs. cs @ frag) n)))
           = length (filter (matches P) (elems n))"
proof (induction n)
  case (Text t)
  then show ?case by simp
next
  case (Element tag a cs)
  let ?mc = "map_children is_head (\<lambda>cs. cs @ frag)"
  have "length (filter (matches P) (concat (map elems (map ?mc ds))))
          = length (filter (matches P) (concat (map elems ds)))"
    if "set ds \<subseteq> set cs" for ds
    using that
  proof (induction ds)
    case Nil
    then show ?case by simp
  next
    case (Cons d ds)
    then have "d \<in> set cs" and "set ds \<subseteq> set cs" by simp_all
    then show ?case using Element.IH [of d] Cons.IH by simp
  qed
  then have kids: "length (filter (matches P) (concat (map elems (map ?mc cs))))
          = length (filter (matches P) (concat (map elems cs)))"
    by simp
  show ?case
  proof (cases "is_head tag a")
    case True
    then show ?thesis using kids new by simp
  next
    case False
    then show ?thesis using kids by simp
  qed
qed

lemma append_count:
  assumes new: "select P frag = []"
  shows "length (select P (map (map_children is_head (\<lambda>cs. cs @ frag)) doc)) = length (select P doc)"
proof -
  have new': "filter (matches P) (concat (map elems frag)) = []"
    using new by (simp add: select_def all_elems_def)
  have "length (filter (matches P) (concat (map elems (map (map_children is_head (\<lambda>cs. cs @ frag)) doc))))
          = length (filter (matches P) (concat (map elems doc)))"
    by (induction doc) (simp_all add: append_count_elems [OF new'])
  then show ?thesis by (simp add: select_def all_elems_def)
qed

lemma refresh_styles_count:
  assumes leaf: "styles_are_leaves doc"
      and head: "select is_head doc \<noteq> []"
      and P: "\<And>tag a. P tag a \<Longrightarrow> \<not> stylesheet_link tag a \<and> \<not> is_style tag a"
      and new: "select P (cheerio_fragment C link_markup) = []"
  shows "length (select P (refresh_styles C doc)) = length (select P doc)"
proof -
  let ?S = "\<lambda>tag a. stylesheet_link tag a \<or> is_style tag a"
  let ?d2 = "remove_all ?S doc"
  have d2: "remove_all is_style (remove_all stylesheet_link doc) = ?d2"
    by (rule remove_twice)
  have leaf': "\<forall>e \<in> set (all_elems doc). matches ?S e \<longrightarrow> all_elems (children_of e) = []"
  proof (intro ballI impI)
    fix e assume e: "e \<in> set (all_elems doc)" and m: "matches ?S e"
    have "matches (\<lambda>tag a. tag = ''link'' \<or> tag = ''style'') e"
      using m by (cases e) (auto simp: stylesheet_link_def is_style_def)
    then show "all_elems (children_of e) = []"
      using leaf e by (simp add: styles_are_leaves_def)
  qed
  have "length (filter (matches is_head) (all_elems ?d2)) = length (filter (matches is_head) (all_elems doc))"
    by (rule remove_keeps [OF leaf']) (auto simp: stylesheet_link_def is_style_def is_head_def)
  then have "length (select is_head ?d2) = length (select is_head doc)"
    by (simp add: select_def)
  then have nonempty: "select is_head ?d2 \<noteq> []" using head by auto
  have sp: "\<not> P tag a" if "?S tag a" for tag a
    using P [of tag a] that by blast
  have "length (filter (matches P) (all_elems ?d2)) = length (filter (matches P) (all_elems doc))"
    by (rule remove_keeps [OF leaf' sp])
  then have kept: "length (select P ?d2) = length (select P doc)"
    by (simp add: select_def)
  have "refresh_styles C doc = map (map_children is_head (\<lambda>cs. cs @ cheerio_fragment C link_markup)) ?d2"
    using nonempty by (simp add: refresh_styles_def d2 Let_def)
  then show ?thesis using append_count [OF new, of ?d2] kept by simp
qed

lemma attr_map_set: "k \<noteq> n \<Longrightarrow> attr (map_set a n v) k = attr a k"
  by (simp add: attr_def map_of_map_set)

lemma pass_keeps_attr:
  assumes "f \<in> set (attr_passes L baseUrl m)"
      and "k \<notin> {''src'', ''href'', ''srcset'', ''data-srcset'', ''style''}"
  shows "attr (f tag a) k = attr a k"
  using assms
  by (auto simp: attr_passes_def setLocal_def adopt_lazy_def rewriteSrcset_def rewrite_style_def
        attr_map_set Let_def split: option.splits)

lemma pass_keeps_preload:
  assumes "f \<in> set (attr_passes L baseUrl m)"
  shows "preload_style_link tag (f tag a) = preload_style_link tag a"
  by (simp add: preload_style_link_def rel_is_def as_is_def pass_keeps_attr [OF assms])

lemma preload_not_stylesheet:
  assumes "preload_style_link tag a"
  shows "\<not> stylesheet_link tag a \<and> \<not> is_style tag a"
proof -
  obtain r where r: "attr a ''rel'' = Some r" and c: "map canon r = map canon ''preload''"
    and t: "tag = ''link''"
    using assms by (auto simp: preload_style_link_def rel_is_def split: option.splits)
  have "map canon ''stylesheet'' \<notin> set (words (map canon ''preload''))"
    by code_simp
  then show ?thesis
    by (simp add: stylesheet_link_def rel_has_word_def r c t is_style_def)
qed

lemma style_link_selected:
  "select stylesheet_link [style_link] = [style_link]"
  "select is_style [style_link] = []"
  "select preload_style_link [style_link] = []"
  by code_simp+

text \<open>
  C8, restricted to what the pass removes. The pass removes the elements that match
  \<^verbatim>\<open>link[rel~="stylesheet"]\<close> and \<^verbatim>\<open>style\<close>, and appends the new link to every \<^verbatim>\<open>head\<close>.
  For a document with one \<^verbatim>\<open>head\<close>, as the parser builds it, whose \<^verbatim>\<open>link\<close> and \<^verbatim>\<open>style\<close>
  elements contain no element: afterwards the only stylesheet link is the new
  \<^verbatim>\<open><link rel="stylesheet" href="style.css">\<close>, no \<^verbatim>\<open>style\<close> element is left, and the
  links that match \<^verbatim>\<open>link[rel="preload"][as="style"]\<close> are as many as before: none of
  them is removed.
\<close>

theorem stylesheets_replaced:
  assumes frag: "cheerio_fragment C link_markup = [style_link]"
      and head: "length (select is_head doc) = 1"
      and leaf: "styles_are_leaves doc"
  shows "select stylesheet_link (rewrite_dom C L doc baseUrl m) = [style_link] \<and>
         select is_style (rewrite_dom C L doc baseUrl m) = [] \<and>
         length (select preload_style_link (rewrite_dom C L doc baseUrl m))
           = length (select preload_style_link doc)"
proof -
  let ?d = "fold (\<lambda>f d. map (map_attrs f) d) (attr_passes L baseUrl m) doc"
  have leaf': "styles_are_leaves ?d" using leaf by (rule passes_leaves)
  have "length (select is_head ?d) = length (select is_head doc)"
    by (rule passes_count) (simp add: is_head_def)
  then have one: "length (select is_head ?d) = 1" using head by simp
  then have head': "select is_head ?d \<noteq> []" by auto
  have "length (select preload_style_link ?d) = length (select preload_style_link doc)"
    by (rule passes_count) (rule pass_keeps_preload)
  moreover have "length (select preload_style_link (refresh_styles C ?d))
          = length (select preload_style_link ?d)"
    by (rule refresh_styles_count [OF leaf' head'])
       (simp_all add: preload_not_stylesheet frag style_link_selected)
  moreover have "select stylesheet_link (refresh_styles C ?d)
          = concat (replicate (length (select is_head ?d))
                      (select stylesheet_link (cheerio_fragment C link_markup)))"
    by (rule refresh_styles_select [OF leaf' head']) simp
  moreover have "select is_style (refresh_styles C ?d)
          = concat (replicate (length (select is_head ?d))
                      (select is_style (cheerio_fragment C link_markup)))"
    by (rule refresh_styles_select [OF leaf' head']) simp
  ultimately show ?thesis
    by (simp add: rewrite_dom_def one frag style_link_selected)
qed

theorem stylesheets_replaced_witness:
  "cheerio_fragment page_cheerio link_markup = [style_link] \<and>
   length (select is_head plain_doc) = 1 \<and>
   styles_are_leaves plain_doc \<and>
   length (select stylesheet_link plain_doc) = 1 \<and>
   length (select is_style plain_doc) = 1 \<and>
   select stylesheet_link
     (rewrite_dom page_cheerio page_lib plain_doc ''https://x.test/p''
        [(''https://x.test/a.png'', ''assets/img/a.png'')]) = [style_link] \<and>
   select is_style
     (rewrite_dom page_cheerio page_lib plain_doc ''https://x.test/p''
        [(''https://x.test/a.png'', ''assets/img/a.png'')]) = []"
proof -
  have f: "cheerio_fragment page_cheerio link_markup = [style_link]" by code_simp
  have h: "length (select is_head plain_doc) = 1" by code_simp
  have l: "styles_are_leaves plain_doc" by code_simp
  have s: "length (select stylesheet_link plain_doc) = 1" by code_simp
  have t: "length (select is_style plain_doc) = 1" by code_simp
  show ?thesis
    using stylesheets_replaced [OF f h l, of page_lib "''https://x.test/p''"
        "[(''https://x.test/a.png'', ''assets/img/a.png'')]"] f h l s t
    by simp
qed

text \<open>
  C8 as stated fails for the links that preload a stylesheet. The style collector takes
  \<^verbatim>\<open>a.css\<close> of the example page as a stylesheet, and the rewritten page still holds the
  link that preloads it.
\<close>

theorem preload_link_kept_counterexample:
  "extractStyles page_cheerio page_lib plain_html ''https://x.test/p''
     = ([''https://x.test/c0.css'', ''https://x.test/a.css''], [''p{}'']) \<and>
   rewrite_dom page_cheerio page_lib (cheerio_load page_cheerio plain_html) ''https://x.test/p''
     [(''https://x.test/a.png'', ''assets/img/a.png'')]
     = [Element ''html'' []
          [Element ''head'' []
             [Element ''link'' [(''rel'', ''preload''), (''as'', ''style''), (''href'', ''a.css'')] [],
              Element ''link'' [(''rel'', ''stylesheet''), (''href'', ''style.css'')] []],
           Element ''body'' [] [Element ''img'' [(''src'', ''assets/img/a.png'')] []]]]"
  by code_simp

end
